theory Spec2Isabelle
  imports Main "HOL-Library.Word"
begin

section \<open>The TOON text format\<close>

subsection \<open>Strings\<close>

text \<open>
  A JavaScript string is a list of characters, each read as a code unit below 256. The
  white space that \<open>trim\<close> and \<open>trimStart\<close> remove is then tab, line feed, vertical
  tab, form feed, carriage return, space and no-break space.
\<close>

definition is_space :: "char \<Rightarrow> bool" where
  "is_space c = (c \<in> set [CHR 0x09, CHR 0x0A, CHR 0x0B, CHR 0x0C, CHR 0x0D, CHR 0x20, CHR 0xA0])"

definition trimStart :: "string \<Rightarrow> string" where
  "trimStart s = dropWhile is_space s"

definition trim :: "string \<Rightarrow> string" where
  "trim s = rev (dropWhile is_space (rev (dropWhile is_space s)))"

definition str_includes :: "string \<Rightarrow> char \<Rightarrow> bool" where
  "str_includes s c = (c \<in> set s)"

definition indexOf :: "string \<Rightarrow> char \<Rightarrow> int" where
  "indexOf s c = (if c \<in> set s then int (length (takeWhile (\<lambda>x. x \<noteq> c) s)) else - 1)"

text \<open>
  \<open>s.substring(a, b)\<close> clamps both indices to the string and swaps them when the first
  is the larger; \<open>s.substring(a)\<close> runs to the end.
\<close>

definition substring :: "string \<Rightarrow> int \<Rightarrow> int \<Rightarrow> string" where
  "substring s a b =
     (let n = int (length s);
          a' = max 0 (min a n);
          b' = max 0 (min b n)
      in take (nat (max a' b' - min a' b')) (drop (nat (min a' b')) s))"

definition substring_from :: "string \<Rightarrow> int \<Rightarrow> string" where
  "substring_from s a = drop (nat (max 0 a)) s"

fun split :: "char \<Rightarrow> string \<Rightarrow> string list" where
  "split sep [] = [[]]"
| "split sep (c # cs) =
     (if c = sep then [] # split sep cs
      else (case split sep cs of l # ls \<Rightarrow> (c # l) # ls))"

fun join :: "string \<Rightarrow> string list \<Rightarrow> string" where
  "join sep [] = []"
| "join sep [x] = x"
| "join sep (x # y # zs) = x @ sep @ join sep (y # zs)"

definition startsWith :: "string \<Rightarrow> char \<Rightarrow> bool" where
  "startsWith s c = (s \<noteq> [] \<and> hd s = c)"

definition endsWith :: "string \<Rightarrow> char \<Rightarrow> bool" where
  "endsWith s c = (s \<noteq> [] \<and> last s = c)"

text \<open>The number of leading white-space characters: \<open>line.length - line.trimStart().length\<close>.\<close>

definition indent_of :: "string \<Rightarrow> nat" where
  "indent_of line = length line - length (trimStart line)"

subsection \<open>Numbers\<close>

text \<open>
  A number of the model is an integer \<open>n\<close> with \<open>\<bar>n\<bar> < 2 ^ 53\<close>, which JavaScript
  represents exactly and prints in plain decimal digits. Other numbers (fractions,
  larger integers) are not values of the model; where the parser would produce one, the
  model says so with \<open>Not_modelled\<close>.
\<close>

definition is_digit :: "char \<Rightarrow> bool" where
  "is_digit c = (c \<in> set ''0123456789'')"

definition digit_char :: "nat \<Rightarrow> char" where
  "digit_char d = ''0123456789abcdef'' ! d"

definition digit_value :: "char \<Rightarrow> nat" where
  "digit_value c =
     (if c \<in> set ''0123456789'' then of_char c - 48
      else if c \<in> set ''abcdef'' then of_char c - 87
      else of_char c - 55)"

fun digits :: "nat \<Rightarrow> string" where
  "digits n = (if n < 10 then [digit_char n] else digits (n div 10) @ [digit_char (n mod 10)])"

declare digits.simps [simp del]

definition number_to_string :: "int \<Rightarrow> string" where
  "number_to_string n = (if n < 0 then CHR ''-'' # digits (nat (- n)) else digits (nat n))"

text \<open>
  \<open>parseInt\<close>: leading white space, a sign, a \<open>0x\<close> prefix for radix 16, then the longest
  run of digits; without a digit the result is \<open>NaN\<close>, here \<open>None\<close>.
\<close>

definition is_radix_digit :: "nat \<Rightarrow> char \<Rightarrow> bool" where
  "is_radix_digit radix c =
     (if radix = 16 then c \<in> set ''0123456789abcdefABCDEF'' else is_digit c)"

definition radix_value :: "nat \<Rightarrow> string \<Rightarrow> nat" where
  "radix_value radix ds = foldl (\<lambda>a c. radix * a + digit_value c) 0 ds"

definition parseInt :: "string \<Rightarrow> int option" where
  "parseInt s =
     (let t = trimStart s;
          negative = (t \<noteq> [] \<and> hd t = CHR ''-'');
          u = (if t \<noteq> [] \<and> hd t \<in> {CHR ''-'', CHR ''+''} then tl t else t);
          radix = (if take 2 u \<in> {''0x'', ''0X''} then 16 else 10);
          v = (if radix = 16 then drop 2 u else u);
          ds = takeWhile (is_radix_digit radix) v
      in if ds = [] then None
         else Some (if negative then - int (radix_value radix ds) else int (radix_value radix ds)))"

text \<open>The pattern \<open>/^-?\d+(\.\d+)?$/\<close>.\<close>

definition matches_number :: "string \<Rightarrow> bool" where
  "matches_number s =
     (let body = (if s \<noteq> [] \<and> hd s = CHR ''-'' then tl s else s);
          rest = dropWhile is_digit body
      in takeWhile is_digit body \<noteq> []
         \<and> (rest = [] \<or> (hd rest = CHR ''.'' \<and> tl rest \<noteq> [] \<and> list_all is_digit (tl rest))))"

subsection \<open>JSON string literals\<close>

text \<open>
  \<open>JSON.stringify\<close> of a string, and \<open>JSON.parse\<close> of a text that begins with a quote.
  The parse throws a syntax error on anything but one string literal. A \<open>\u\<close> escape
  of a code unit above 255 is outside the model.
\<close>

datatype toon_error = SyntaxError | Not_modelled

definition json_escape :: "char \<Rightarrow> string" where
  "json_escape c =
     (if c = CHR 0x22 then [CHR 0x5C, CHR 0x22]
      else if c = CHR 0x5C then [CHR 0x5C, CHR 0x5C]
      else if c = CHR 0x08 then [CHR 0x5C, CHR ''b'']
      else if c = CHR 0x0C then [CHR 0x5C, CHR ''f'']
      else if c = CHR 0x0A then [CHR 0x5C, CHR ''n'']
      else if c = CHR 0x0D then [CHR 0x5C, CHR ''r'']
      else if c = CHR 0x09 then [CHR 0x5C, CHR ''t'']
      else if (of_char c :: nat) < 0x20
        then [CHR 0x5C, CHR ''u'', CHR ''0'', CHR ''0'',
              digit_char (of_char c div 16), digit_char (of_char c mod 16)]
      else [c])"

definition JSON_stringify :: "string \<Rightarrow> string" where
  "JSON_stringify s = CHR 0x22 # concat (map json_escape s) @ [CHR 0x22]"

definition simple_escape :: "char \<Rightarrow> char option" where
  "simple_escape e =
     (if e = CHR 0x22 then Some (CHR 0x22)
      else if e = CHR 0x5C then Some (CHR 0x5C)
      else if e = CHR ''/'' then Some (CHR ''/'')
      else if e = CHR ''b'' then Some (CHR 0x08)
      else if e = CHR ''f'' then Some (CHR 0x0C)
      else if e = CHR ''n'' then Some (CHR 0x0A)
      else if e = CHR ''r'' then Some (CHR 0x0D)
      else if e = CHR ''t'' then Some (CHR 0x09)
      else None)"

definition prepend :: "char \<Rightarrow> toon_error + string \<Rightarrow> toon_error + string" where
  "prepend c r = (case r of Inl e \<Rightarrow> Inl e | Inr s \<Rightarrow> Inr (c # s))"

fun json_chars :: "string \<Rightarrow> toon_error + string" where
  "json_chars [] = Inl SyntaxError"
| "json_chars (c # cs) =
     (if c = CHR 0x22 then
        (if list_all (\<lambda>w. w \<in> set [CHR 0x20, CHR 0x09, CHR 0x0A, CHR 0x0D]) cs then Inr []
         else Inl SyntaxError)
      else if c = CHR 0x5C then
        (case cs of
           [] \<Rightarrow> Inl SyntaxError
         | e # rest \<Rightarrow>
             if e = CHR ''u'' then
               (if length rest \<ge> 4 \<and> list_all (is_radix_digit 16) (take 4 rest) then
                  (if radix_value 16 (take 4 rest) < 256
                   then prepend (char_of (radix_value 16 (take 4 rest))) (json_chars (drop 4 rest))
                   else Inl Not_modelled)
                else Inl SyntaxError)
             else (case simple_escape e of
                     None \<Rightarrow> Inl SyntaxError
                   | Some x \<Rightarrow> prepend x (json_chars rest)))
      else if (of_char c :: nat) < 0x20 then Inl SyntaxError
      else prepend c (json_chars cs))"

definition JSON_parse :: "string \<Rightarrow> toon_error + string" where
  "JSON_parse text = (case text of [] \<Rightarrow> Inl SyntaxError | q # cs \<Rightarrow>
     if q = CHR 0x22 then json_chars cs else Inl SyntaxError)"

subsection \<open>Values\<close>

text \<open>
  The values the serializer takes and the parser returns. An object is the list of its
  own properties in the order \<open>Object.entries\<close> gives them, with distinct keys; reading
  a property that is not there gives \<open>undefined\<close>, here \<open>None\<close>. (Properties
  inherited from \<open>Object.prototype\<close> and the key \<open>__proto__\<close> are outside the
  model, and so is the place JavaScript gives to keys that are array indices.)
\<close>

datatype node =
    JNull
  | JBool bool
  | JNum int
  | JStr string
  | JObj "(string \<times> node) list"
  | JArr "node list"

definition property :: "node \<Rightarrow> string \<Rightarrow> node option" where
  "property item field = (case item of JObj obj \<Rightarrow> map_of obj field | _ \<Rightarrow> None)"

text \<open>\<open>obj[key] = value\<close>: an existing property keeps its place.\<close>

fun assign :: "(string \<times> node) list \<Rightarrow> string \<Rightarrow> node \<Rightarrow> (string \<times> node) list" where
  "assign [] key v = [(key, v)]"
| "assign ((k, w) # obj) key v =
     (if k = key then (k, v) # obj else (k, w) # assign obj key v)"

definition is_object :: "node \<Rightarrow> bool" where
  "is_object item = (case item of JObj _ \<Rightarrow> True | _ \<Rightarrow> False)"

definition is_primitive :: "node \<Rightarrow> bool" where
  "is_primitive item = (case item of JObj _ \<Rightarrow> False | JArr _ \<Rightarrow> False | _ \<Rightarrow> True)"

subsection \<open>The serializer\<close>

text \<open>
  \<open>String(value)\<close>, which \<open>_serializePrimitive\<close> falls back to: an object prints as
  \<open>[object Object]\<close>, an array as its elements joined by commas, with nothing for
  \<open>null\<close>.
\<close>

fun js_String :: "node \<Rightarrow> string" where
  "js_String JNull = ''null''"
| "js_String (JBool b) = (if b then ''true'' else ''false'')"
| "js_String (JNum n) = number_to_string n"
| "js_String (JStr s) = s"
| "js_String (JObj obj) = ''[object Object]''"
| "js_String (JArr arr) =
     join '','' (map (\<lambda>item. if item = JNull then [] else js_String item) arr)"

definition serializePrimitive :: "node option \<Rightarrow> string" where
  "serializePrimitive v =
     (case v of
        None \<Rightarrow> ''null''
      | Some JNull \<Rightarrow> ''null''
      | Some (JBool b) \<Rightarrow> (if b then ''true'' else ''false'')
      | Some (JStr s) \<Rightarrow>
          (if str_includes s CHR '','' \<or> str_includes s CHR 0x0A \<or> str_includes s CHR 0x22
           then JSON_stringify s else s)
      | Some (JNum n) \<Rightarrow> number_to_string n
      | Some value \<Rightarrow> js_String value)"

text \<open>The keys of all items, each at its first occurrence.\<close>

definition all_keys :: "node list \<Rightarrow> string list" where
  "all_keys arr =
     fold (\<lambda>k allKeys. if k \<in> set allKeys then allKeys else allKeys @ [k])
       (concat (map (\<lambda>item. case item of JObj obj \<Rightarrow> map fst obj | _ \<Rightarrow> []) arr)) []"

definition spaces :: "nat \<Rightarrow> string" where
  "spaces n = replicate n CHR '' ''"

definition serializeTabularArray :: "nat \<Rightarrow> node list \<Rightarrow> nat \<Rightarrow> string" where
  "serializeTabularArray indentSize arr indentLevel =
     (if arr = [] then []
      else (let allKeys = all_keys arr;
                indent = spaces (indentLevel * indentSize)
            in join [CHR 0x0A]
                 (map (\<lambda>item. indent @ join '',''
                         (map (\<lambda>field. serializePrimitive (property item field)) allKeys))
                    arr)))"

function serialize :: "nat \<Rightarrow> node \<Rightarrow> nat \<Rightarrow> string"
  and serializeObject :: "nat \<Rightarrow> (string \<times> node) list \<Rightarrow> nat \<Rightarrow> string"
  and serializeArrayWithKey :: "nat \<Rightarrow> string \<Rightarrow> node list \<Rightarrow> nat \<Rightarrow> string"
  and serializeArray :: "nat \<Rightarrow> node list \<Rightarrow> nat \<Rightarrow> string"
where
  "serialize indentSize data indentLevel =
     (case data of
        JObj obj \<Rightarrow> serializeObject indentSize obj indentLevel
      | JArr arr \<Rightarrow> serializeArray indentSize arr indentLevel
      | _ \<Rightarrow> serializePrimitive (Some data))"
| "serializeObject indentSize obj indentLevel =
     (let indent = spaces (indentLevel * indentSize)
      in join [CHR 0x0A]
           (concat (map (\<lambda>(key, value).
              case value of
                JObj nested \<Rightarrow>
                  [indent @ key @ '':'', serializeObject indentSize nested (indentLevel + 1)]
              | JArr arr \<Rightarrow>
                  [indent @ serializeArrayWithKey indentSize key arr indentLevel]
              | _ \<Rightarrow>
                  [indent @ key @ '': '' @ serializePrimitive (Some value)]) obj)))"
| "serializeArrayWithKey indentSize key arr indentLevel =
     (if arr = [] then key @ ''[0]:''
      else if list_all is_object arr \<and> all_keys arr \<noteq> [] then
        (let allKeys = all_keys arr;
             fields = join '','' allKeys;
             indent = spaces ((indentLevel + 1) * indentSize)
         in join [CHR 0x0A]
              ((key @ ''['' @ number_to_string (int (length arr)) @ '']{'' @ fields @ ''}:'')
               # map (\<lambda>item. indent @ join '',''
                         (map (\<lambda>field. serializePrimitive (property item field)) allKeys))
                   arr))
      else if list_all is_primitive arr then
        key @ ''['' @ number_to_string (int (length arr)) @ '']: ''
          @ join '','' (map (\<lambda>item. serializePrimitive (Some item)) arr)
      else
        (let indent = spaces ((indentLevel + 1) * indentSize)
         in join [CHR 0x0A]
              ((key @ ''['' @ number_to_string (int (length arr)) @ '']:'')
               # map (\<lambda>item. indent @ serialize indentSize item (indentLevel + 1)) arr)))"
| "serializeArray indentSize arr indentLevel =
     (if arr = [] then ''[]''
      else if list_all is_object arr then serializeTabularArray indentSize arr indentLevel
      else if list_all is_primitive arr then
        join '','' (map (\<lambda>item. serializePrimitive (Some item)) arr)
      else
        (let indent = spaces (indentLevel * indentSize)
         in join [CHR 0x0A]
              (map (\<lambda>item. indent @ serialize indentSize item (indentLevel + 1)) arr)))"
  by pat_completeness auto

termination
proof -
  have pair: "size v < size_list (size_prod (\<lambda>x. 0) size) obj"
    if "(k, v) \<in> set obj" for k :: string and v :: node and obj
    using that by (rule size_list_estimation) simp
  have elem: "size x \<le> size_list size arr" if "x \<in> set arr" for x :: node and arr
    using that by (rule size_list_estimation') simp
  show ?thesis
    by (relation "measure (\<lambda>x. case x of
            Inl (Inl (_, data, _)) \<Rightarrow> 2 * size data + 1
          | Inl (Inr (_, obj, _)) \<Rightarrow> 2 * size (JObj obj)
          | Inr (Inl (_, _, arr, _)) \<Rightarrow> 2 * size (JArr arr)
          | Inr (Inr (_, arr, _)) \<Rightarrow> 2 * size (JArr arr))")
       (auto dest: pair elem)
qed

declare serialize.simps [simp del] serializeObject.simps [simp del]
  serializeArrayWithKey.simps [simp del] serializeArray.simps [simp del]

subsection \<open>The parser\<close>

text \<open>
  \<open>_parseCSVRow\<close>: the loop over the characters of a row, with the values found so
  far, the current value and the quote state. Quote characters are dropped.
\<close>

fun csv_loop :: "string \<Rightarrow> string list \<Rightarrow> string \<Rightarrow> bool \<Rightarrow> string list \<times> string" where
  "csv_loop [] values current inQuotes = (values, current)"
| "csv_loop (char # rowStr) values current inQuotes =
     (if char = CHR 0x22 then csv_loop rowStr values current (\<not> inQuotes)
      else if char = CHR '','' \<and> \<not> inQuotes then csv_loop rowStr (values @ [trim current]) [] inQuotes
      else csv_loop rowStr values (current @ [char]) inQuotes)"

definition parseCSVRow :: "string \<Rightarrow> string list" where
  "parseCSVRow rowStr =
     (case csv_loop rowStr [] [] False of
        (values, current) \<Rightarrow> if current \<noteq> [] then values @ [trim current] else values)"

definition parsePrimitive :: "string \<Rightarrow> toon_error + node" where
  "parsePrimitive s =
     (let valueStr = trim s
      in if startsWith valueStr (CHR 0x22) \<and> endsWith valueStr (CHR 0x22) then
           (case JSON_parse valueStr of Inl e \<Rightarrow> Inl e | Inr str \<Rightarrow> Inr (JStr str))
         else if valueStr = ''true'' then Inr (JBool True)
         else if valueStr = ''false'' then Inr (JBool False)
         else if valueStr = ''null'' then Inr JNull
         else if matches_number valueStr then
           (if str_includes valueStr CHR ''.'' then Inl Not_modelled
            else (case parseInt valueStr of
                    None \<Rightarrow> Inl Not_modelled
                  | Some n \<Rightarrow> if \<bar>n\<bar> < 2 ^ 53 then Inr (JNum n) else Inl Not_modelled))
         else Inr (JStr valueStr))"

text \<open>\<open>values.map(v => this._parsePrimitive(v))\<close>; a throw ends the map.\<close>

fun parsePrimitives :: "string list \<Rightarrow> toon_error + node list" where
  "parsePrimitives [] = Inr []"
| "parsePrimitives (v # vs) =
     (case parsePrimitive v of
        Inl e \<Rightarrow> Inl e
      | Inr x \<Rightarrow> (case parsePrimitives vs of Inl e \<Rightarrow> Inl e | Inr xs \<Rightarrow> Inr (x # xs)))"

text \<open>
  \<open>_parseArrayDeclaration\<close>: the key before the bracket, the length between the
  brackets (\<open>None\<close> for \<open>NaN\<close>) and, when there is a brace, the field names.
\<close>

definition parseArrayDeclaration :: "string \<Rightarrow> string \<times> int option \<times> string list option" where
  "parseArrayDeclaration keyStr =
     (let key = substring keyStr 0 (indexOf keyStr CHR ''['');
          lengthStart = indexOf keyStr CHR ''['' + 1;
          lengthEnd = indexOf keyStr CHR '']'';
          len = parseInt (substring keyStr lengthStart lengthEnd);
          fields =
            (if str_includes keyStr CHR ''{'' then
               (let fieldsStart = indexOf keyStr CHR ''{'' + 1;
                    fieldsEnd = indexOf keyStr CHR ''}'';
                    fieldsStr = substring keyStr fieldsStart fieldsEnd
                in Some (map trim (split CHR '','' fieldsStr)))
             else None)
      in (key, len, fields))"

text \<open>
  One row of a tabular array: the fields take the values at their positions, as far as
  there are values.
\<close>

fun row_object ::
  "string list \<Rightarrow> string list \<Rightarrow> (string \<times> node) list \<Rightarrow> toon_error + (string \<times> node) list" where
  "row_object [] rowValues rowObj = Inr rowObj"
| "row_object (field # fields) [] rowObj = Inr rowObj"
| "row_object (field # fields) (v # rowValues) rowObj =
     (case parsePrimitive v of
        Inl e \<Rightarrow> Inl e
      | Inr x \<Rightarrow> row_object fields rowValues (assign rowObj field x))"

text \<open>The inner \<open>while\<close> loop of \<open>_parseLines\<close>, over the rows of a tabular array.\<close>

function parseRows ::
  "string list \<Rightarrow> nat \<Rightarrow> nat \<Rightarrow> string list \<Rightarrow> int option \<Rightarrow> node list
     \<Rightarrow> toon_error + (node list \<times> nat)" where
  "parseRows lines rowIdx rowIndent fields len rows =
     (if rowIdx < length lines \<and> (case len of None \<Rightarrow> False | Some n \<Rightarrow> int (length rows) < n) then
        (let rowLine = lines ! rowIdx;
             rowLineIndent = indent_of rowLine
         in if rowLineIndent \<ge> rowIndent \<and> trim rowLine \<noteq> [] then
              (case row_object fields (parseCSVRow (trim rowLine)) [] of
                 Inl e \<Rightarrow> Inl e
               | Inr rowObj \<Rightarrow>
                   parseRows lines (rowIdx + 1) rowIndent fields len (rows @ [JObj rowObj]))
            else parseRows lines (rowIdx + 1) rowIndent fields len rows)
      else Inr (rows, rowIdx))"
  by pat_completeness auto
termination
  by (relation "measure (\<lambda>(lines, rowIdx, _). length lines - rowIdx)") auto

declare parseRows.simps [simp del]

lemma parseRows_index:
  "parseRows lines rowIdx rowIndent fields len rows = Inr (rows', rowIdx') \<Longrightarrow> rowIdx \<le> rowIdx'"
proof (induction lines rowIdx rowIndent fields len rows rule: parseRows.induct)
  case (1 lines rowIdx rowIndent fields len rows)
  show ?case
  proof (cases "rowIdx < length lines \<and> (case len of None \<Rightarrow> False | Some n \<Rightarrow> int (length rows) < n)")
    case False
    with "1.prems" show ?thesis by (subst (asm) parseRows.simps) auto
  next
    case True
    show ?thesis
    proof (cases "indent_of (lines ! rowIdx) \<ge> rowIndent \<and> trim (lines ! rowIdx) \<noteq> []")
      case False
      with True "1.prems" have "parseRows lines (rowIdx + 1) rowIndent fields len rows = Inr (rows', rowIdx')"
        by (subst (asm) parseRows.simps) (auto simp: Let_def)
      from "1.IH"(2)[OF True refl refl False this] show ?thesis by simp
    next
      case line: True
      with True "1.prems" obtain rowObj where
        r: "row_object fields (parseCSVRow (trim (lines ! rowIdx))) [] = Inr rowObj"
        and p: "parseRows lines (rowIdx + 1) rowIndent fields len (rows @ [JObj rowObj]) = Inr (rows', rowIdx')"
        by (subst (asm) parseRows.simps) (auto simp: Let_def split: sum.splits)
      from "1.IH"(1)[OF True refl refl line r p] show ?thesis by simp
    qed
  qed
qed

text \<open>
  The outer \<open>while\<close> loop of \<open>_parseLines\<close>, with the object built so far. It returns
  the object and the index of the line at which it stopped.
\<close>

function parseLines ::
  "string list \<Rightarrow> nat \<Rightarrow> nat \<Rightarrow> (string \<times> node) list \<Rightarrow> toon_error + ((string \<times> node) list \<times> nat)" where
  "parseLines lines idx baseIndent obj =
     (if idx < length lines then
        (let line = lines ! idx
         in if trim line = [] then parseLines lines (idx + 1) baseIndent obj
            else
              (let indent = indent_of line
               in if indent < baseIndent then Inr (obj, idx)
                  else if indent > baseIndent then parseLines lines (idx + 1) baseIndent obj
                  else
                    (let lineContent = trim line
                     in if str_includes lineContent CHR '':'' then
                          (let colonIdx = indexOf lineContent CHR '':'';
                               key = trim (substring lineContent 0 colonIdx);
                               valuePart = trim (substring_from lineContent (colonIdx + 1))
                           in if str_includes key CHR ''['' \<and> str_includes key CHR '']'' then
                                (case parseArrayDeclaration key of (arrayKey, len, fields) \<Rightarrow>
                                   if str_includes key CHR ''{'' then
                                     (case parseRows lines (idx + 1) (indent + 2)
                                             (case fields of None \<Rightarrow> [] | Some fs \<Rightarrow> fs) len [] of
                                        Inl e \<Rightarrow> Inl e
                                      | Inr (rows, rowIdx) \<Rightarrow>
                                          parseLines lines rowIdx baseIndent
                                            (assign obj arrayKey (JArr rows)))
                                   else if valuePart \<noteq> [] then
                                     (case parsePrimitives (parseCSVRow valuePart) of
                                        Inl e \<Rightarrow> Inl e
                                      | Inr vs \<Rightarrow>
                                          parseLines lines (idx + 1) baseIndent
                                            (assign obj arrayKey (JArr vs)))
                                   else parseLines lines (idx + 1) baseIndent
                                          (assign obj arrayKey (JArr [])))
                              else if valuePart = [] then
                                (if idx + 1 < length lines \<and> indent_of (lines ! (idx + 1)) > indent then
                                   (case parseLines lines (idx + 1) (indent + 2) [] of
                                      Inl e \<Rightarrow> Inl e
                                    | Inr (nestedObj, nextIdx) \<Rightarrow>
                                        parseLines lines nextIdx baseIndent
                                          (assign obj key (JObj nestedObj)))
                                 else parseLines lines (idx + 1) baseIndent obj)
                              else
                                (case parsePrimitive valuePart of
                                   Inl e \<Rightarrow> Inl e
                                 | Inr v \<Rightarrow> parseLines lines (idx + 1) baseIndent (assign obj key v)))
                        else parseLines lines (idx + 1) baseIndent obj)))
      else Inr (obj, idx))"
  by pat_completeness auto

lemma parseLines_index:
  "parseLines_dom (lines, idx, baseIndent, obj) \<Longrightarrow>
   parseLines lines idx baseIndent obj = Inr (obj', idx') \<Longrightarrow> idx \<le> idx'"
proof (induction lines idx baseIndent obj arbitrary: obj' idx' rule: parseLines.pinduct)
  case (1 lines idx baseIndent obj)
  note ih = "1.IH"
  let ?line = "lines ! idx"
  let ?indent = "indent_of ?line"
  let ?lineContent = "trim ?line"
  let ?colonIdx = "indexOf ?lineContent CHR '':''"
  let ?key = "trim (substring ?lineContent 0 ?colonIdx)"
  let ?valuePart = "trim (substring_from ?lineContent (?colonIdx + 1))"
  have eq: "parseLines lines idx baseIndent obj = Inr (obj', idx')" by fact
  note ps = parseLines.psimps[OF "1.hyps"]
  show ?case
  proof (cases "idx < length lines")
    case False
    with eq show ?thesis by (simp add: ps)
  next
    case lt: True
    show ?thesis
    proof (cases "trim ?line = []")
      case True
      with eq lt have "parseLines lines (idx + 1) baseIndent obj = Inr (obj', idx')"
        by (simp add: ps)
      from ih(1)[OF lt refl True this] show ?thesis by simp
    next
      case nonblank: False
      show ?thesis
      proof (cases "?indent < baseIndent")
        case True
        with eq lt nonblank show ?thesis by (simp add: ps Let_def)
      next
        case nlt: False
        show ?thesis
        proof (cases "baseIndent < ?indent")
          case True
          with eq lt nonblank nlt
          have "parseLines lines (idx + 1) baseIndent obj = Inr (obj', idx')"
            by (simp add: ps Let_def)
          from ih(2)[OF lt refl nonblank refl nlt True this] show ?thesis by simp
        next
          case ngt: False
          note here = lt refl nonblank refl nlt ngt refl
          show ?thesis
          proof (cases "str_includes ?lineContent CHR '':''")
            case False
            with eq lt nonblank nlt ngt
            have "parseLines lines (idx + 1) baseIndent obj = Inr (obj', idx')"
              by (simp add: ps Let_def)
            from ih(10)[OF here False this] show ?thesis by simp
          next
            case colon: True
            note here2 = here colon refl refl refl
            show ?thesis
            proof (cases "str_includes ?key CHR ''['' \<and> str_includes ?key CHR '']''")
              case arr: True
              obtain arrayKey len fields
                where pad: "parseArrayDeclaration ?key = (arrayKey, len, fields)"
                by (cases "parseArrayDeclaration ?key") auto
              show ?thesis
              proof (cases "str_includes ?key CHR ''{''")
                case True
                with eq lt nonblank nlt ngt colon arr pad obtain rows rowIdx where
                  r: "parseRows lines (idx + 1) (?indent + 2)
                        (case fields of None \<Rightarrow> [] | Some fs \<Rightarrow> fs) len [] = Inr (rows, rowIdx)"
                  and p: "parseLines lines rowIdx baseIndent (assign obj arrayKey (JArr rows))
                        = Inr (obj', idx')"
                  by (auto simp: ps Let_def split: sum.splits)
                from ih(3)[OF here2 arr pad[symmetric] refl True r refl p]
                have "rowIdx \<le> idx'" .
                with parseRows_index[OF r] show ?thesis by simp
              next
                case nobrace: False
                show ?thesis
                proof (cases "?valuePart = []")
                  case True
                  with eq lt nonblank nlt ngt colon arr pad nobrace
                  have p: "parseLines lines (idx + 1) baseIndent (assign obj arrayKey (JArr []))
                        = Inr (obj', idx')"
                    by (simp add: ps Let_def)
                  from ih(5)[OF here2 arr pad[symmetric] refl nobrace _ p] True
                  show ?thesis by simp
                next
                  case False
                  with eq lt nonblank nlt ngt colon arr pad nobrace obtain vs where
                    v: "parsePrimitives (parseCSVRow ?valuePart) = Inr vs"
                    and p: "parseLines lines (idx + 1) baseIndent (assign obj arrayKey (JArr vs))
                        = Inr (obj', idx')"
                    by (auto simp: ps Let_def split: sum.splits)
                  from ih(4)[OF here2 arr pad[symmetric] refl nobrace False v p]
                  show ?thesis by simp
                qed
              qed
            next
              case noarr: False
              show ?thesis
              proof (cases "?valuePart = []")
                case novalue: True
                show ?thesis
                proof (cases "idx + 1 < length lines \<and> ?indent < indent_of (lines ! (idx + 1))")
                  case True
                  with eq lt nonblank nlt ngt colon noarr novalue obtain nestedObj nextIdx where
                    n: "parseLines lines (idx + 1) (?indent + 2) [] = Inr (nestedObj, nextIdx)"
                    and p: "parseLines lines nextIdx baseIndent (assign obj ?key (JObj nestedObj))
                        = Inr (obj', idx')"
                    by (auto simp: ps Let_def split: sum.splits)
                  from ih(6)[OF here2 noarr novalue True n] have "idx + 1 \<le> nextIdx" .
                  moreover from ih(7)[OF here2 noarr novalue True n refl p] have "nextIdx \<le> idx'" .
                  ultimately show ?thesis by simp
                next
                  case False
                  with eq lt nonblank nlt ngt colon noarr novalue
                  have p: "parseLines lines (idx + 1) baseIndent obj = Inr (obj', idx')"
                    by (auto simp: ps Let_def)
                  from ih(8)[OF here2 noarr novalue False p] show ?thesis by simp
                qed
              next
                case hasvalue: False
                with eq lt nonblank nlt ngt colon noarr obtain v where
                  v: "parsePrimitive ?valuePart = Inr v"
                  and p: "parseLines lines (idx + 1) baseIndent (assign obj ?key v) = Inr (obj', idx')"
                  by (auto simp: ps Let_def split: sum.splits)
                from ih(9)[OF here2 noarr hasvalue v p] show ?thesis by simp
              qed
            qed
          qed
        qed
      qed
    qed
  qed
qed

termination parseLines
  by (relation "measure (\<lambda>(lines, idx, baseIndent, obj). length lines - idx)")
     (auto dest: parseRows_index parseLines_index)

declare parseLines.simps [simp del]

definition parse :: "string \<Rightarrow> toon_error + node" where
  "parse toonStr =
     (case parseLines (split (CHR 0x0A) (trim toonStr)) 0 0 [] of
        Inl e \<Rightarrow> Inl e
      | Inr (result, idx) \<Rightarrow> Inr (JObj result))"

subsection \<open>Trees of nested mappings\<close>

text \<open>
  The class of values for which the round trip is studied. A string is \<open>trimmed\<close> when
  \<open>trim\<close> leaves it alone. A \<open>plain_key\<close> is a key the parser reads back as written: it is
  trimmed, has no colon (the parser cuts the line at the first one) and no line feed, and does
  not hold both brackets (the parser would take the line for an array declaration).
\<close>

definition trimmed :: "string \<Rightarrow> bool" where
  "trimmed s = (s = [] \<or> (\<not> is_space (hd s) \<and> \<not> is_space (last s)))"

definition plain_key :: "string \<Rightarrow> bool" where
  "plain_key k =
     (trimmed k \<and> CHR '':'' \<notin> set k \<and> CHR 0x0A \<notin> set k
      \<and> \<not> (CHR ''['' \<in> set k \<and> CHR '']'' \<in> set k))"


text \<open>
  \<open>needs_quotes\<close> is the test of \<open>_serializePrimitive\<close> for writing a string as a JSON literal.
  A \<open>plain_string\<close> is either written as such a literal, or is written bare and is then not
  empty, trimmed, none of the words \<open>true\<close>, \<open>false\<close>, \<open>null\<close>, and does not look like a number.
  A \<open>plain_scalar\<close> is \<open>null\<close>, a boolean, an integer that a JavaScript number holds exactly, or
  a plain string.
\<close>

definition needs_quotes :: "string \<Rightarrow> bool" where
  "needs_quotes s =
     (str_includes s CHR '','' \<or> str_includes s CHR 0x0A \<or> str_includes s CHR 0x22)"

definition plain_string :: "string \<Rightarrow> bool" where
  "plain_string s =
     (needs_quotes s
      \<or> (s \<noteq> [] \<and> trimmed s \<and> s \<notin> {''true'', ''false'', ''null''}
          \<and> \<not> matches_number s))"

fun plain_scalar :: "node \<Rightarrow> bool" where
  "plain_scalar JNull = True"
| "plain_scalar (JBool b) = True"
| "plain_scalar (JNum n) = (\<bar>n\<bar> < 2 ^ 53)"
| "plain_scalar (JStr s) = plain_string s"
| "plain_scalar (JObj obj) = False"
| "plain_scalar (JArr arr) = False"

text \<open>
  A \<open>mapping_tree\<close> is a plain scalar, the empty string, or a mapping that is not empty, has
  unique plain keys, and whose values are mapping trees. \<open>prune\<close> removes, at every depth,
  the entries whose value is the empty string; \<open>without_empty_strings\<close> says there is none.
\<close>

fun mapping_tree :: "node \<Rightarrow> bool" where
  "mapping_tree (JObj obj) =
     (obj \<noteq> [] \<and> distinct (map fst obj)
      \<and> list_all (\<lambda>(k, v). plain_key k \<and> mapping_tree v) obj)"
| "mapping_tree (JArr arr) = False"
| "mapping_tree v = (plain_scalar v \<or> v = JStr [])"

fun prune :: "node \<Rightarrow> node" where
  "prune (JObj obj) =
     JObj (map (\<lambda>(k, v). (k, prune v)) (filter (\<lambda>(k, v). v \<noteq> JStr []) obj))"
| "prune v = v"


definition entries_ok :: "(string \<times> node) list \<Rightarrow> bool" where
  "entries_ok obj = list_all (\<lambda>(k, v). plain_key k \<and> mapping_tree v) obj"

definition pruned :: "(string \<times> node) list \<Rightarrow> (string \<times> node) list" where
  "pruned obj = map (\<lambda>(k, v). (k, prune v)) (filter (\<lambda>(k, v). v \<noteq> JStr []) obj)"


text \<open>
  What the parser sees of a line is its indentation and its trimmed text (\<open>same_view\<close>).
  \<open>matches_at lines p blk\<close>: from index \<open>p\<close> the lines look like \<open>blk\<close>. \<open>follows lines q b\<close>: the
  line at \<open>q\<close>, if there is one, is not blank and is indented less than \<open>b\<close>, so a parse at base
  indentation \<open>b\<close> stops there. \<open>assign_all\<close> assigns entries in order, as the parser's
  \<open>obj[key] = ...\<close> does. \<open>rstrip\<close> removes trailing white space.
\<close>

definition same_view :: "string \<Rightarrow> string \<Rightarrow> bool" where
  "same_view a b = (indent_of a = indent_of b \<and> trim a = trim b)"

definition matches_at :: "string list \<Rightarrow> nat \<Rightarrow> string list \<Rightarrow> bool" where
  "matches_at lines p blk =
     (p + length blk \<le> length lines
      \<and> (\<forall>i < length blk. same_view (lines ! (p + i)) (blk ! i)))"





section \<open>The binary protocol client\<close>

subsection \<open>Buffers\<close>

text \<open>
  A Node.js \<open>Buffer\<close> is a list of bytes. The integer accessors follow Node: a write
  throws a range error when the value does not fit the field or the field does not fit
  the buffer, and is big-endian. The reads are used by the client only after it has
  checked that the buffer holds a whole header.
\<close>

type_synonym byte = "8 word"
type_synonym bytes = "byte list"

datatype range_error = ERR_OUT_OF_RANGE

definition writeUInt8 :: "nat \<Rightarrow> nat \<Rightarrow> bytes \<Rightarrow> range_error + bytes" where
  "writeUInt8 v off buf =
     (if v < 2 ^ 8 \<and> off + 1 \<le> length buf then Inr (buf[off := of_nat v])
      else Inl ERR_OUT_OF_RANGE)"

definition writeUInt16BE :: "nat \<Rightarrow> nat \<Rightarrow> bytes \<Rightarrow> range_error + bytes" where
  "writeUInt16BE v off buf =
     (if v < 2 ^ 16 \<and> off + 2 \<le> length buf
      then Inr (buf[off := of_nat (v div 2 ^ 8), off + 1 := of_nat v])
      else Inl ERR_OUT_OF_RANGE)"

definition writeUInt32BE :: "nat \<Rightarrow> nat \<Rightarrow> bytes \<Rightarrow> range_error + bytes" where
  "writeUInt32BE v off buf =
     (if v < 2 ^ 32 \<and> off + 4 \<le> length buf
      then Inr (buf[off := of_nat (v div 2 ^ 24), off + 1 := of_nat (v div 2 ^ 16),
                    off + 2 := of_nat (v div 2 ^ 8), off + 3 := of_nat v])
      else Inl ERR_OUT_OF_RANGE)"

definition readUInt8 :: "bytes \<Rightarrow> nat \<Rightarrow> nat" where
  "readUInt8 buf off = unat (buf ! off)"

definition readUInt16BE :: "bytes \<Rightarrow> nat \<Rightarrow> nat" where
  "readUInt16BE buf off = unat (buf ! off) * 2 ^ 8 + unat (buf ! (off + 1))"

definition readUInt32BE :: "bytes \<Rightarrow> nat \<Rightarrow> nat" where
  "readUInt32BE buf off =
     unat (buf ! off) * 2 ^ 24 + unat (buf ! (off + 1)) * 2 ^ 16
       + unat (buf ! (off + 2)) * 2 ^ 8 + unat (buf ! (off + 3))"

text \<open>\<open>buf.slice(a, b)\<close> for \<open>0 \<le> a \<le> b\<close>; \<open>buf.slice(a)\<close> is \<open>drop a buf\<close>.\<close>

definition slice_buf :: "bytes \<Rightarrow> nat \<Rightarrow> nat \<Rightarrow> bytes" where
  "slice_buf buf a b = take (b - a) (drop a buf)"

subsection \<open>Protocol constants\<close>

definition MAGIC :: nat where "MAGIC = 0x4E455841"
definition VERSION :: nat where "VERSION = 0x01"

definition MSG_CONNECT :: nat where "MSG_CONNECT = 0x01"
definition MSG_SUCCESS :: nat where "MSG_SUCCESS = 0x81"
definition MSG_ERROR :: nat where "MSG_ERROR = 0x82"
definition MSG_NOT_FOUND :: nat where "MSG_NOT_FOUND = 0x83"
definition MSG_PONG :: nat where "MSG_PONG = 0x88"

subsection \<open>Building a frame\<close>

text \<open>
  The header of \<open>_sendMessage\<close>: twelve zero bytes, then the five writes in the order
  of the source. A write that throws ends the construction.
\<close>

definition build_header :: "nat \<Rightarrow> nat \<Rightarrow> range_error + bytes" where
  "build_header msgType payloadLength =
     (case writeUInt32BE MAGIC 0 (replicate 12 0) of Inl e \<Rightarrow> Inl e | Inr h1 \<Rightarrow>
     (case writeUInt8 VERSION 4 h1 of Inl e \<Rightarrow> Inl e | Inr h2 \<Rightarrow>
     (case writeUInt8 msgType 5 h2 of Inl e \<Rightarrow> Inl e | Inr h3 \<Rightarrow>
     (case writeUInt16BE 0 6 h3 of Inl e \<Rightarrow> Inl e | Inr h4 \<Rightarrow>
      writeUInt32BE payloadLength 8 h4))))"

definition build_message :: "nat \<Rightarrow> bytes \<Rightarrow> range_error + bytes" where
  "build_message msgType payload =
     (case build_header msgType (length payload) of
        Inl e \<Rightarrow> Inl e
      | Inr header \<Rightarrow> Inr (header @ payload))"

subsection \<open>Client state and effects\<close>

text \<open>
  The errors the client creates, by the message of the \<open>Error\<close> object, and the events
  it emits. A pending request is held in the queue with its \<open>resolve\<close> and
  \<open>reject\<close> continuations; the model names it by its \<open>id\<close> and records a call of
  a continuation as an effect. Everything the client does to the outside (the socket,
  timers, promises, listeners) is appended to \<open>effects\<close> in the order of execution.
  \<open>Uncaught\<close> records an exception that leaves a handler of the client: the handler ends
  there. \<open>Null_socket\<close> is the \<open>TypeError\<close> of a method call on \<open>this.socket\<close> while it is
  \<open>null\<close>.
\<close>

datatype failure =
    Not_connected
  | Connection_closed
  | Server_error string
  | Not_found
  | Unknown_response_type nat
  | Invalid_protocol_magic nat
  | Failed_to_decode
  | Out_of_range
  | Connection_timeout
  | Transport_failure
  | Null_socket

datatype 'd emitted =
    Connect_event
  | Disconnect_event
  | Error_event failure
  | Message_event nat 'd

datatype timer = Connection_timer | Reconnect_timer

datatype 'd effect =
    Resolve nat 'd
  | Reject nat failure
  | Reject_send failure
  | Resolve_connect
  | Reject_connect failure
  | Emit "'d emitted"
  | Uncaught failure
  | Socket_create
  | Socket_write bytes
  | Socket_end
  | Socket_destroy
  | Set_timeout timer nat
  | Clear_timeout timer

text \<open>
  The client is an \<open>EventEmitter\<close>. Its listeners are the caller's, registered with
  \<open>on\<close>, and those \<open>connect\<close> registers with \<open>once\<close> for a call that finds a connection
  attempt under way. The bodies of the caller's listeners are outside the model; of the
  caller's listeners the state records only whether there is one for \<open>error\<close>
  (\<open>error_listener\<close>), since \<open>emit('error', err)\<close> throws \<open>err\<close> when the event has no
  listener at all. \<open>once_connect\<close> and \<open>once_error\<close> count the listeners registered by
  \<open>connect\<close> that have not run yet.
\<close>

record 'd client =
  autoReconnect :: bool
  timeout :: nat
  has_socket :: bool
  connected :: bool
  connecting :: bool
  pendingRequests :: "nat list"
  requestId :: nat
  buffer :: bytes
  effects :: "'d effect list"
  error_listener :: bool
  once_connect :: nat
  once_error :: nat

text \<open>
  The values sent and received are those of the MessagePack library, which is not part
  of the repository: its \<open>encode\<close> and \<open>decode\<close> are parameters (\<open>decode\<close> is
  \<open>None\<close> where the library throws), with the reading of \<open>data.error || 'Unknown error'\<close>
  on a decoded value (\<open>None\<close> where the property access throws, on \<open>null\<close> and
  \<open>undefined\<close>) and the handshake payload built from the user name and password.
\<close>

record 'd payloads =
  encode :: "'d \<Rightarrow> bytes"
  decode :: "bytes \<Rightarrow> 'd option"
  error_text :: "'d \<Rightarrow> string option"
  credentials :: 'd

definition constructor :: "bool \<Rightarrow> nat \<Rightarrow> 'd client" where
  "constructor auto ms =
     \<lparr>autoReconnect = auto, timeout = ms, has_socket = False, connected = False,
      connecting = False, pendingRequests = [], requestId = 0, buffer = [], effects = [],
      error_listener = False, once_connect = 0, once_error = 0\<rparr>"

definition perform :: "'d effect list \<Rightarrow> 'd client \<Rightarrow> 'd client" where
  "perform es s = s\<lparr>effects := effects s @ es\<rparr>"

text \<open>
  \<open>this.emit('error', err)\<close>. With a listener the call returns: \<open>report\<close> is the state
  after it, in which the \<open>once\<close> listeners of \<open>connect\<close> have run (each rejects its promise)
  and are gone. Without one the call throws \<open>err\<close>: the result is \<open>Inl\<close> of the state at
  the throw.
\<close>

definition listening :: "'d client \<Rightarrow> bool" where
  "listening s = (error_listener s \<or> 0 < once_error s)"

definition report :: "failure \<Rightarrow> 'd client \<Rightarrow> 'd client" where
  "report e s =
     (perform (Emit (Error_event e) # replicate (once_error s) (Reject_connect e)) s)
       \<lparr>once_error := 0\<rparr>"

definition emit_error :: "failure \<Rightarrow> 'd client \<Rightarrow> 'd client + 'd client" where
  "emit_error e s = (if listening s then Inr (report e s) else Inl (perform [Uncaught e] s))"

subsection \<open>Sending\<close>

definition sendMessage :: "'d payloads \<Rightarrow> nat \<Rightarrow> 'd \<Rightarrow> 'd client \<Rightarrow> 'd client" where
  "sendMessage P msgType data s =
     (if \<not> connected s then perform [Reject_send Not_connected] s
      else (case build_message msgType (encode P data) of
              Inl e \<Rightarrow> perform [Reject_send Out_of_range] s
            | Inr message \<Rightarrow>
                (perform [Socket_write message] s)
                  \<lparr>pendingRequests := pendingRequests s @ [requestId s],
                   requestId := requestId s + 1\<rparr>))"

subsection \<open>Receiving\<close>

text \<open>
  \<open>_handleMessage\<close> takes the head of the queue and settles it by the message type.
  Reading \<open>data.error\<close> may throw after the head has been removed: the result is then
  \<open>Inl\<close> of the state at the throw.
\<close>

definition handleMessage ::
  "'d payloads \<Rightarrow> nat \<Rightarrow> 'd \<Rightarrow> 'd client \<Rightarrow> 'd client + 'd client" where
  "handleMessage P msgType data s =
     (case pendingRequests s of
        [] \<Rightarrow> Inr (perform [Emit (Message_event msgType data)] s)
      | request # rest \<Rightarrow>
          (let s1 = s\<lparr>pendingRequests := rest\<rparr> in
           if msgType = MSG_SUCCESS \<or> msgType = MSG_PONG
             then Inr (perform [Resolve request data] s1)
           else if msgType = MSG_ERROR
             then (case error_text P data of
                     None \<Rightarrow> Inl s1
                   | Some m \<Rightarrow> Inr (perform [Reject request (Server_error m)] s1))
           else if msgType = MSG_NOT_FOUND
             then Inr (perform [Reject request Not_found] s1)
           else Inr (perform [Reject request (Unknown_response_type msgType)] s1)))"

text \<open>
  The \<open>try\<close> block of \<open>_handleData\<close>: decode the payload and handle the message;
  whatever is thrown in either is caught and emitted as an error event. That \<open>emit\<close> is
  in the \<open>catch\<close> block: when it throws, the exception leaves \<open>_handleData\<close> (\<open>Inl\<close>).
\<close>

definition deliver ::
  "'d payloads \<Rightarrow> nat \<Rightarrow> bytes \<Rightarrow> 'd client \<Rightarrow> 'd client + 'd client" where
  "deliver P msgType payloadBuf s =
     (case decode P payloadBuf of
        None \<Rightarrow> emit_error Failed_to_decode s
      | Some payload \<Rightarrow>
          (case handleMessage P msgType payload s of
             Inl s1 \<Rightarrow> emit_error Failed_to_decode s1
           | Inr s1 \<Rightarrow> Inr s1))"

lemma buffer_perform [simp]: "buffer (perform es s) = buffer s"
  by (simp add: perform_def)

lemma buffer_report [simp]: "buffer (report e s) = buffer s"
  by (simp add: report_def)

lemma buffer_deliver:
  "deliver P msgType payloadBuf s = Inr s1 \<Longrightarrow> buffer s1 = buffer s"
  "deliver P msgType payloadBuf s = Inl s1 \<Longrightarrow> buffer s1 = buffer s"
  by (auto simp: deliver_def handleMessage_def emit_error_def Let_def
      split: option.splits list.splits sum.splits if_splits)

text \<open>
  The \<open>while\<close> loop of \<open>_handleData\<close>. The version byte is read and not used. On a wrong
  magic the error is emitted and then, if that call returns, \<open>this.socket.destroy()\<close> is
  called, which throws while there is no socket. An exception ends the loop and leaves
  \<open>_handleData\<close>; the state is then the one at the throw.
\<close>

function process :: "'d payloads \<Rightarrow> 'd client \<Rightarrow> 'd client" where
  "process P s =
     (if 12 \<le> length (buffer s) then
        (let magic = readUInt32BE (buffer s) 0;
             msgType = readUInt8 (buffer s) 5;
             payloadLen = readUInt32BE (buffer s) 8
         in if length (buffer s) < 12 + payloadLen then s
            else if magic \<noteq> MAGIC then
              (case emit_error (Invalid_protocol_magic magic) s of
                 Inl s1 \<Rightarrow> s1
               | Inr s1 \<Rightarrow>
                   if has_socket s1 then perform [Socket_destroy] s1
                   else perform [Uncaught Null_socket] s1)
            else (case deliver P msgType (slice_buf (buffer s) 12 (12 + payloadLen))
                         (s\<lparr>buffer := drop (12 + payloadLen) (buffer s)\<rparr>) of
                    Inl s1 \<Rightarrow> s1
                  | Inr s1 \<Rightarrow> process P s1))
      else s)"
  by pat_completeness auto
termination
  by (relation "measure (\<lambda>(P, s). length (buffer s))") (auto dest: buffer_deliver(1))

declare process.simps [simp del]

definition handleData :: "'d payloads \<Rightarrow> bytes \<Rightarrow> 'd client \<Rightarrow> 'd client" where
  "handleData P data s = process P (s\<lparr>buffer := buffer s @ data\<rparr>)"

subsection \<open>Connection life cycle\<close>

text \<open>
  \<open>connect\<close> returns at once on a connected client; on a client whose connection attempt
  is under way it registers the two \<open>once\<close> listeners that settle the promise it returns;
  otherwise it starts an attempt. \<open>on\<close> is the caller registering a listener for
  \<open>error\<close>.
\<close>

definition connect :: "'d client \<Rightarrow> 'd client" where
  "connect s =
     (if connected s then s
      else if connecting s
        then s\<lparr>once_connect := once_connect s + 1, once_error := once_error s + 1\<rparr>
      else (perform [Set_timeout Connection_timer (timeout s), Socket_create] s)
             \<lparr>connecting := True, has_socket := True\<rparr>)"

definition on :: "'d client \<Rightarrow> 'd client" where
  "on s = s\<lparr>error_listener := True\<rparr>"

text \<open>
  The handlers of the socket's events. \<open>emit('connect')\<close> runs the \<open>once\<close> listeners of
  the waiting \<open>connect\<close> calls, each resolving its promise. In the \<open>error\<close> handler the
  promise of the attempt is rejected after the \<open>emit\<close>, and so only if that returns.
\<close>

definition on_connect :: "'d payloads \<Rightarrow> 'd client \<Rightarrow> 'd client" where
  "on_connect P s =
     sendMessage P MSG_CONNECT (credentials P)
       ((perform (Clear_timeout Connection_timer # Emit Connect_event
                  # replicate (once_connect s) Resolve_connect) s)
          \<lparr>connected := True, connecting := False, once_connect := 0\<rparr>)"

definition on_error :: "'d client \<Rightarrow> 'd client" where
  "on_error s =
     (case emit_error Transport_failure
             ((perform [Clear_timeout Connection_timer] s)
                \<lparr>connecting := False, connected := False\<rparr>) of
        Inl s1 \<Rightarrow> s1
      | Inr s1 \<Rightarrow> perform [Reject_connect Transport_failure] s1)"

definition on_close :: "'d client \<Rightarrow> 'd client" where
  "on_close s =
     (let s1 = (perform (Emit Disconnect_event #
                         map (\<lambda>req. Reject req Connection_closed) (pendingRequests s)) s)
                 \<lparr>connected := False, pendingRequests := []\<rparr>
      in if autoReconnect s1 \<and> \<not> connecting s1
         then perform [Set_timeout Reconnect_timer 1000] s1
         else s1)"

definition on_timer :: "timer \<Rightarrow> 'd client \<Rightarrow> 'd client" where
  "on_timer t s =
     (case t of
        Connection_timer \<Rightarrow>
          perform (Reject_connect Connection_timeout #
                   (if has_socket s then [Socket_destroy] else [])) s
      | Reconnect_timer \<Rightarrow> connect s)"

definition disconnect :: "'d client \<Rightarrow> 'd client" where
  "disconnect s =
     (let s1 = s\<lparr>autoReconnect := False\<rparr>
      in if has_socket s1 then perform [Socket_end] s1 else s1)"

text \<open>
  What can happen to a client: calls of its public operations, the events of its socket
  and its timers. A state is reachable when some sequence of them leads to it from a
  newly constructed client.
\<close>

datatype 'd input =
    Call_connect
  | Call_disconnect
  | Call_send nat 'd
  | Call_on
  | On_connect
  | On_data bytes
  | On_error
  | On_close
  | On_timer timer

fun step :: "'d payloads \<Rightarrow> 'd input \<Rightarrow> 'd client \<Rightarrow> 'd client" where
  "step P Call_connect s = connect s"
| "step P Call_disconnect s = disconnect s"
| "step P (Call_send msgType data) s = sendMessage P msgType data s"
| "step P Call_on s = on s"
| "step P On_connect s = on_connect P s"
| "step P (On_data data) s = handleData P data s"
| "step P On_error s = on_error s"
| "step P On_close s = on_close s"
| "step P (On_timer t) s = on_timer t s"

inductive reachable :: "'d payloads \<Rightarrow> 'd client \<Rightarrow> bool" for P :: "'d payloads" where
  start: "reachable P (constructor auto ms)"
| next_step: "reachable P s \<Longrightarrow> reachable P (step P i s)"

subsection \<open>Runs\<close>

text \<open>
  The socket hands the client one chunk of bytes after the other; the caller sends one
  request after the other; in general, \<open>run\<close> is the client taking a list of inputs in
  order. \<open>sent\<close> and \<open>received\<close> are the requests and the bytes among them.
\<close>

fun receive :: "'d payloads \<Rightarrow> bytes list \<Rightarrow> 'd client \<Rightarrow> 'd client" where
  "receive P [] s = s"
| "receive P (chunk # chunks) s = receive P chunks (handleData P chunk s)"

fun send_all :: "'d payloads \<Rightarrow> (nat \<times> 'd) list \<Rightarrow> 'd client \<Rightarrow> 'd client" where
  "send_all P [] s = s"
| "send_all P ((msgType, data) # rs) s = send_all P rs (sendMessage P msgType data s)"

fun run :: "'d payloads \<Rightarrow> 'd input list \<Rightarrow> 'd client \<Rightarrow> 'd client" where
  "run P [] s = s"
| "run P (i # inputs) s = run P inputs (step P i s)"

fun sent :: "'d input list \<Rightarrow> (nat \<times> 'd) list" where
  "sent [] = []"
| "sent (Call_send msgType data # inputs) = (msgType, data) # sent inputs"
| "sent (i # inputs) = sent inputs"

fun received :: "'d input list \<Rightarrow> bytes" where
  "received [] = []"
| "received (On_data data # inputs) = data @ received inputs"
| "received (i # inputs) = received inputs"

text \<open>
  The inputs of the traffic on an open connection: data arriving, and requests whose kind
  and payload fit the header fields.
\<close>

fun traffic :: "'d payloads \<Rightarrow> 'd input \<Rightarrow> bool" where
  "traffic P (Call_send msgType data) = (msgType < 256 \<and> length (encode P data) < 2 ^ 32)"
| "traffic P (On_data data) = True"
| "traffic P i = False"

text \<open>
  A frame is well formed for a message kind and payload when it is what the client's own
  encoding builds for them. \<open>deliver_all\<close> hands whole messages to the decoding step, one
  by one, as long as nothing is thrown: the reference against which the reassembly of a
  byte stream is compared. A message is \<open>readable\<close> when its payload decodes and, for an
  error response, the \<open>error\<close> property of the decoded value can be read; delivering a
  readable message emits no error. \<open>whole frames n\<close> is the number of leading frames that
  lie within the first \<open>n\<close> bytes of their concatenation.
\<close>

definition well_formed :: "nat \<times> bytes \<Rightarrow> bytes \<Rightarrow> bool" where
  "well_formed m frame = (build_message (fst m) (snd m) = Inr frame)"

fun deliver_all :: "'d payloads \<Rightarrow> (nat \<times> bytes) list \<Rightarrow> 'd client \<Rightarrow> 'd client" where
  "deliver_all P [] s = s"
| "deliver_all P (m # ms) s =
     (case deliver P (fst m) (snd m) s of
        Inl s1 \<Rightarrow> s1
      | Inr s1 \<Rightarrow> deliver_all P ms s1)"

definition readable :: "'d payloads \<Rightarrow> nat \<times> bytes \<Rightarrow> bool" where
  "readable P m =
     (case decode P (snd m) of
        None \<Rightarrow> False
      | Some data \<Rightarrow> fst m = MSG_ERROR \<longrightarrow> error_text P data \<noteq> None)"

fun whole :: "bytes list \<Rightarrow> nat \<Rightarrow> nat" where
  "whole [] n = 0"
| "whole (frame # frames) n =
     (if length frame \<le> n then Suc (whole frames (n - length frame)) else 0)"

text \<open>
  The loop of \<open>_handleData\<close> stops and waits for more data on a buffer that holds less
  than a header, or a header whose declared payload is not yet all there.
\<close>

definition waiting :: "bytes \<Rightarrow> bool" where
  "waiting b = (length b < 12 \<or> length b < 12 + readUInt32BE b 8)"

text \<open>
  A response as the specification speaks of it: its kind, the payload bytes on the wire,
  the payload they decode to and, for an error response, the server's message.
\<close>

record 'd response =
  response_kind :: nat
  wire_payload :: bytes
  decoded :: 'd
  server_message :: string

definition decodes :: "'d payloads \<Rightarrow> 'd response \<Rightarrow> bool" where
  "decodes P r =
     (decode P (wire_payload r) = Some (decoded r)
      \<and> (response_kind r = MSG_ERROR \<longrightarrow> error_text P (decoded r) = Some (server_message r)))"

text \<open>
  The outcome the specification gives the request that a response answers: success and
  pong resolve with the payload, error rejects with the server's message, not-found
  rejects with the not-found failure, any other kind rejects with the
  unknown-response failure. \<open>settled\<close> keeps, of a list of effects, the settlements of
  requests.
\<close>

definition expected_outcome :: "'d response \<Rightarrow> nat \<Rightarrow> 'd effect" where
  "expected_outcome r request =
     (if response_kind r \<in> {MSG_SUCCESS, MSG_PONG} then Resolve request (decoded r)
      else if response_kind r = MSG_ERROR then Reject request (Server_error (server_message r))
      else if response_kind r = MSG_NOT_FOUND then Reject request Not_found
      else Reject request (Unknown_response_type (response_kind r)))"

fun is_settlement :: "'d effect \<Rightarrow> bool" where
  "is_settlement (Resolve request data) = True"
| "is_settlement (Reject request e) = True"
| "is_settlement e = False"

definition settled :: "'d effect list \<Rightarrow> 'd effect list" where
  "settled es = filter is_settlement es"

text \<open>
  An instance of the payload parameters for concrete runs: the values are the numbers
  below 128, which MessagePack encodes in one byte (positive fixint). Byte strings that
  are not one positive fixint are not values of this instance and do not decode; among
  them are those on which the library throws, such as a value cut short. A number has
  no \<open>error\<close> property, so \<open>data.error || 'Unknown error'\<close> is the default text.
\<close>

definition fixint_payloads :: "nat payloads" where
  "fixint_payloads =
     \<lparr>encode = (\<lambda>n. [of_nat n]),
      decode = (\<lambda>b. case b of [x] \<Rightarrow> (if x < 0x80 then Some (unat x) else None) | _ \<Rightarrow> None),
      error_text = (\<lambda>n. Some ''Unknown error''),
      credentials = 0\<rparr>"

section \<open>Properties of the client\<close>

lemma unat_of_nat_byte: "unat (of_nat n :: byte) = n mod 256"
  by (simp add: unat_of_nat)

lemma list_update_Cons_numeral: "(x # xs)[numeral v := y] = x # xs[numeral v - 1 := y]"
  by (simp add: numeral_eq_Suc)

lemma replicate_12: "replicate 12 (x::'a) = [x, x, x, x, x, x, x, x, x, x, x, x]"
  by (simp add: numeral_eq_Suc)

lemma magic_bytes:
  "writeUInt32BE MAGIC 0 (replicate 12 0) = Inr [0x4E, 0x45, 0x58, 0x41, 0, 0, 0, 0, 0, 0, 0, 0]"
  by (simp add: writeUInt32BE_def MAGIC_def replicate_12 list_update_Cons_numeral)

lemma build_header_eq:
  assumes "msgType < 256" "n < 2 ^ 32"
  shows "build_header msgType n =
     Inr [0x4E, 0x45, 0x58, 0x41, 1, of_nat msgType, 0, 0,
          of_nat (n div 2 ^ 24), of_nat (n div 2 ^ 16), of_nat (n div 2 ^ 8), of_nat n]"
  unfolding build_header_def magic_bytes using assms
  by (simp add: writeUInt32BE_def writeUInt8_def writeUInt16BE_def
       VERSION_def list_update_Cons_numeral)

lemma be32_roundtrip:
  assumes "n < 2 ^ 32"
  shows "(n div 2 ^ 24 mod 256) * 2 ^ 24 + (n div 2 ^ 16 mod 256) * 2 ^ 16
           + (n div 2 ^ 8 mod 256) * 2 ^ 8 + n mod 256 = (n::nat)"
proof -
  define a where "a = n div 256"
  define b where "b = a div 256"
  define c where "c = b div 256"
  have n: "n = a * 256 + n mod 256" by (simp add: a_def)
  have a: "a = b * 256 + a mod 256" by (simp add: b_def)
  have b: "b = c * 256 + b mod 256" by (simp add: c_def)
  have d8: "n div 2 ^ 8 = a" by (simp add: a_def)
  have d16: "n div 2 ^ 16 = b" by (simp add: a_def b_def div_mult2_eq)
  have d24: "n div 2 ^ 24 = c" by (simp add: a_def b_def c_def div_mult2_eq)
  have "c < 256" using assms unfolding d24[symmetric] by simp
  then have cm: "c mod 256 = c" by simp
  have "c * 2 ^ 24 + (b mod 256) * 2 ^ 16 + (a mod 256) * 2 ^ 8 + n mod 256
        = ((c * 256 + b mod 256) * 256 + a mod 256) * 256 + n mod 256"
    by simp
  also have "\<dots> = n" using n a b by simp
  finally show ?thesis by (simp only: d8 d16 d24 cm)
qed

lemma build_message_eq:
  assumes "msgType < 256" "length payload < 2 ^ 32"
  shows "build_message msgType payload =
     Inr ([0x4E, 0x45, 0x58, 0x41, 1, of_nat msgType, 0, 0,
          of_nat (length payload div 2 ^ 24), of_nat (length payload div 2 ^ 16),
          of_nat (length payload div 2 ^ 8), of_nat (length payload)] @ payload)"
  using assms by (simp add: build_message_def build_header_eq)

lemma build_message_Inr:
  assumes "build_message msgType payload = Inr f"
  shows "msgType < 256 \<and> length payload < 2 ^ 32"
  using assms
  by (auto simp: build_message_def build_header_def magic_bytes writeUInt32BE_def
       writeUInt8_def writeUInt16BE_def VERSION_def list_update_Cons_numeral
       split: sum.splits if_splits)

lemma frame_fields:
  assumes "build_message msgType payload = Inr f"
  shows "length f = 12 + length payload" "drop 12 f = payload"
    "take (length payload) (drop 12 f) = payload"
    "readUInt32BE f 0 = MAGIC" "readUInt8 f 4 = VERSION" "readUInt8 f 5 = msgType"
    "readUInt16BE f 6 = 0" "readUInt32BE f 8 = length payload"
proof -
  from build_message_Inr[OF assms] have b: "msgType < 256" "length payload < 2 ^ 32"
    by auto
  from build_message_eq[OF b] assms
  have f: "f = [0x4E, 0x45, 0x58, 0x41, 1, of_nat msgType, 0, 0,
          of_nat (length payload div 2 ^ 24), of_nat (length payload div 2 ^ 16),
          of_nat (length payload div 2 ^ 8), of_nat (length payload)] @ payload"
    by simp
  show "length f = 12 + length payload" by (simp add: f)
  show "drop 12 f = payload" by (simp add: f)
  show "take (length payload) (drop 12 f) = payload" by (simp add: f)
  show "readUInt32BE f 0 = MAGIC" by (simp add: f readUInt32BE_def MAGIC_def)
  show "readUInt8 f 4 = VERSION" by (simp add: f readUInt8_def VERSION_def)
  show "readUInt8 f 5 = msgType" using b by (simp add: f readUInt8_def unat_of_nat_byte)
  show "readUInt16BE f 6 = 0" by (simp add: f readUInt16BE_def)
  have "readUInt32BE f 8 = (length payload div 2 ^ 24 mod 256) * 2 ^ 24
           + (length payload div 2 ^ 16 mod 256) * 2 ^ 16
           + (length payload div 2 ^ 8 mod 256) * 2 ^ 8 + length payload mod 256"
    by (simp add: f readUInt32BE_def unat_of_nat_byte)
  then show "readUInt32BE f 8 = length payload"
    by (simp only: be32_roundtrip[OF b(2)])
qed

subsection \<open>The wire frame\<close>

text \<open>
  C4. For every message kind (one byte) and every payload whose length fits the 32-bit
  length field, \<open>_sendMessage\<close> on a connected client writes exactly one frame: twelve
  header bytes followed by the payload, where bytes 0 to 3 read big-endian are the magic
  constant \<open>0x4E455841\<close>, byte 4 is the protocol version, byte 5 the message kind, bytes
  6 and 7 are zero, and bytes 8 to 11 read big-endian are the byte length of the payload.
\<close>

theorem frame_layout:
  assumes "msgType < 256" and "length (encode P data) < 2 ^ 32" and "connected s"
  shows "\<exists>frame. build_message msgType (encode P data) = Inr frame
           \<and> effects (sendMessage P msgType data s) = effects s @ [Socket_write frame]
           \<and> length frame = 12 + length (encode P data)
           \<and> drop 12 frame = encode P data
           \<and> readUInt32BE frame 0 = 0x4E455841
           \<and> readUInt8 frame 4 = VERSION
           \<and> readUInt8 frame 5 = msgType
           \<and> readUInt16BE frame 6 = 0
           \<and> readUInt32BE frame 8 = length (encode P data)"
proof -
  from build_message_eq[OF assms(1,2)] obtain frame
    where f: "build_message msgType (encode P data) = Inr frame" by blast
  have "effects (sendMessage P msgType data s) = effects s @ [Socket_write frame]"
    using assms(3) f by (simp add: sendMessage_def perform_def)
  moreover have "readUInt32BE frame 0 = 0x4E455841"
    using frame_fields(4)[OF f] by (simp add: MAGIC_def)
  ultimately show ?thesis
    using f frame_fields(1,2,5,6,7,8)[OF f] by blast
qed

theorem frame_layout_witness:
  "(9::nat) < 256 \<and> length (encode fixint_payloads 5) < 2 ^ 32
     \<and> connected (on_connect fixint_payloads (connect (constructor True 30000)))
     \<and> (\<exists>frame. build_message 9 (encode fixint_payloads 5) = Inr frame
           \<and> effects (sendMessage fixint_payloads 9 5 (on_connect fixint_payloads (connect (constructor True 30000))))
               = effects (on_connect fixint_payloads (connect (constructor True 30000))) @ [Socket_write frame]
           \<and> length frame = 12 + length (encode fixint_payloads 5)
           \<and> drop 12 frame = encode fixint_payloads 5
           \<and> readUInt32BE frame 0 = 0x4E455841
           \<and> readUInt8 frame 4 = VERSION
           \<and> readUInt8 frame 5 = 9
           \<and> readUInt16BE frame 6 = 0
           \<and> readUInt32BE frame 8 = length (encode fixint_payloads 5))"
proof -
  have c: "connected (on_connect fixint_payloads (connect (constructor True 30000)))"
    by (simp add: on_connect_def sendMessage_def perform_def split: sum.split)
  have l: "length (encode fixint_payloads 5) < 2 ^ 32"
    by (simp add: fixint_payloads_def)
  show ?thesis
    using frame_layout[of 9 fixint_payloads 5, OF _ l c] c l by simp
qed

lemma process_idle:
  "length (buffer s) < 12 \<or> length (buffer s) < 12 + readUInt32BE (buffer s) 8 \<Longrightarrow> process P s = s"
  by (subst process.simps) (auto simp: Let_def)

lemma process_corrupt:
  "12 + readUInt32BE (buffer s) 8 \<le> length (buffer s) \<Longrightarrow> readUInt32BE (buffer s) 0 \<noteq> MAGIC \<Longrightarrow>
   process P s =
     (case emit_error (Invalid_protocol_magic (readUInt32BE (buffer s) 0)) s of
        Inl s1 \<Rightarrow> s1
      | Inr s1 \<Rightarrow> if has_socket s1 then perform [Socket_destroy] s1
                  else perform [Uncaught Null_socket] s1)"
  by (subst process.simps) (auto simp: Let_def)

lemma process_step:
  "12 + readUInt32BE (buffer s) 8 \<le> length (buffer s) \<Longrightarrow> readUInt32BE (buffer s) 0 = MAGIC \<Longrightarrow>
   process P s =
     (case deliver P (readUInt8 (buffer s) 5)
             (slice_buf (buffer s) 12 (12 + readUInt32BE (buffer s) 8))
             (s\<lparr>buffer := drop (12 + readUInt32BE (buffer s) 8) (buffer s)\<rparr>) of
        Inl s1 \<Rightarrow> s1
      | Inr s1 \<Rightarrow> process P s1)"
  by (subst process.simps) (auto simp: Let_def)

lemma report_fields [simp]:
  "has_socket (report e s) = has_socket s" "connected (report e s) = connected s"
  "connecting (report e s) = connecting s" "autoReconnect (report e s) = autoReconnect s"
  "pendingRequests (report e s) = pendingRequests s" "requestId (report e s) = requestId s"
  "error_listener (report e s) = error_listener s" "once_error (report e s) = 0"
  "effects (report e s)
     = effects s @ Emit (Error_event e) # replicate (once_error s) (Reject_connect e)"
  by (simp_all add: report_def perform_def)

lemma emit_error_listener:
  "error_listener s \<Longrightarrow> emit_error e s = Inr (report e s)"
  by (simp add: emit_error_def listening_def)

lemma deliver_buffer_update:
  "deliver P k p (s\<lparr>buffer := b\<rparr>)
     = map_sum (\<lambda>s1. s1\<lparr>buffer := b\<rparr>) (\<lambda>s1. s1\<lparr>buffer := b\<rparr>) (deliver P k p s)"
  by (simp add: deliver_def handleMessage_def emit_error_def listening_def report_def
      perform_def Let_def split: option.split list.split sum.split)

lemma deliver_readable:
  assumes "readable P (k, p)"
  shows "\<exists>s1. deliver P k p s = Inr s1 \<and> error_listener s1 = error_listener s"
  using assms
  by (auto simp: readable_def deliver_def handleMessage_def perform_def Let_def
      split: option.splits list.splits)

lemma deliver_listener:
  assumes "error_listener s"
  shows "\<exists>s1. deliver P k p s = Inr s1 \<and> error_listener s1"
  using assms
  by (auto simp: deliver_def handleMessage_def emit_error_listener perform_def Let_def
      split: option.splits list.splits)

lemma deliver_returns:
  assumes "error_listener s \<or> readable P m"
  shows "\<exists>s1. deliver P (fst m) (snd m) s = Inr s1 \<and> error_listener s1 = error_listener s"
proof (cases "error_listener s")
  case True
  with deliver_listener[OF True, of P "fst m" "snd m"] show ?thesis by auto
next
  case False
  with assms have "readable P (fst m, snd m)" by simp
  from deliver_readable[OF this] show ?thesis .
qed

lemma read_append:
  "off + 4 \<le> length f \<Longrightarrow> readUInt32BE (f @ r) off = readUInt32BE f off"
  "off < length f \<Longrightarrow> readUInt8 (f @ r) off = readUInt8 f off"
  by (simp_all add: readUInt32BE_def readUInt8_def nth_append)

lemma process_frame:
  assumes "well_formed m f"
  shows "process P (s\<lparr>buffer := f @ rest\<rparr>)
         = (case deliver P (fst m) (snd m) s of
              Inl s1 \<Rightarrow> s1\<lparr>buffer := rest\<rparr>
            | Inr s1 \<Rightarrow> process P (s1\<lparr>buffer := rest\<rparr>))"
proof -
  from assms have b: "build_message (fst m) (snd m) = Inr f" by (simp add: well_formed_def)
  note ff = frame_fields[OF b]
  have len: "readUInt32BE (f @ rest) 8 = length (snd m)" using ff by (simp add: read_append)
  have mg: "readUInt32BE (f @ rest) 0 = MAGIC" using ff by (simp add: read_append)
  have k: "readUInt8 (f @ rest) 5 = fst m" using ff by (simp add: read_append)
  have sl: "slice_buf (f @ rest) 12 (12 + length (snd m)) = snd m" using ff by (simp add: slice_buf_def)
  have dr: "drop (12 + length (snd m)) (f @ rest) = rest" using ff by simp
  show ?thesis
    using process_step[of "s\<lparr>buffer := f @ rest\<rparr>" P] ff(1)
    by (simp add: len mg k sl dr deliver_buffer_update split: sum.split)
qed

lemma deliver_all_buffer_update:
  "deliver_all P ms (s\<lparr>buffer := b\<rparr>) = (deliver_all P ms s)\<lparr>buffer := b\<rparr>"
  by (induction ms arbitrary: s) (simp_all add: deliver_buffer_update split: sum.split)

lemma buffer_deliver_all [simp]: "buffer (deliver_all P ms s) = buffer s"
  by (induction ms arbitrary: s) (auto split: sum.split dest: buffer_deliver)


lemma process_frames:
  assumes "list_all2 well_formed ms frames"
      and "error_listener s \<or> (\<forall>m \<in> set ms. readable P m)"
  shows "process P (s\<lparr>buffer := concat frames @ tail\<rparr>)
         = process P ((deliver_all P ms s)\<lparr>buffer := tail\<rparr>)"
  using assms
proof (induction arbitrary: s rule: list_all2_induct)
  case Nil
  then show ?case by simp
next
  case (Cons m ms f fs)
  from Cons.prems have "error_listener s \<or> readable P m" by auto
  from deliver_returns[OF this] obtain s1
    where s1: "deliver P (fst m) (snd m) s = Inr s1" "error_listener s1 = error_listener s"
    by blast
  from Cons.prems s1(2) have h: "error_listener s1 \<or> (\<forall>m \<in> set ms. readable P m)" by auto
  have "process P (s\<lparr>buffer := f @ concat fs @ tail\<rparr>) = process P (s1\<lparr>buffer := concat fs @ tail\<rparr>)"
    using process_frame[OF Cons.hyps(1), where P=P and s=s and rest="concat fs @ tail"] by (simp add: s1)
  then show ?case by (simp add: Cons.IH[OF h] s1)
qed

lemma process_all:
  assumes "list_all2 well_formed ms frames"
      and "error_listener s \<or> (\<forall>m \<in> set ms. readable P m)"
  shows "process P (s\<lparr>buffer := concat frames\<rparr>) = (deliver_all P ms s)\<lparr>buffer := []\<rparr>"
  using process_frames[OF assms, of "[]"] by (simp add: process_idle)

lemma strict_prefix_waiting:
  assumes "well_formed m f" "f = b @ us" "us \<noteq> []"
  shows "waiting b"
proof (cases "length b < 12")
  case True
  then show ?thesis by (simp add: waiting_def)
next
  case False
  from assms(1) have bm: "build_message (fst m) (snd m) = Inr f" by (simp add: well_formed_def)
  have "readUInt32BE (b @ us) 8 = readUInt32BE b 8" using False by (simp add: read_append)
  then have "readUInt32BE b 8 = length (snd m)" using frame_fields(8)[OF bm] assms(2) by simp
  moreover have "length b < 12 + length (snd m)"
    using frame_fields(1)[OF bm] assms(2,3) by (cases us) auto
  ultimately show ?thesis by (simp add: waiting_def)
qed

lemma whole_le: "whole frames n \<le> length frames"
  by (induction frames arbitrary: n) simp_all

lemma whole_split:
  assumes "list_all2 well_formed ms frames" "concat frames = b @ rest"
  shows "\<exists>r. b = concat (take (whole frames (length b)) frames) @ r \<and> waiting r"
  using assms
proof (induction arbitrary: b rule: list_all2_induct)
  case Nil
  then show ?case by (simp add: waiting_def)
next
  case (Cons m ms f fs)
  from Cons.prems have "f @ concat fs = b @ rest" by simp
  then consider us where "f = b @ us" "us \<noteq> []" | us where "b = f @ us" "concat fs = us @ rest"
    by (auto simp: append_eq_append_conv2) (metis append_Nil2 self_append_conv2)+
  then show ?case
  proof cases
    case 1
    then have w: "waiting b" using strict_prefix_waiting[OF Cons.hyps(1)] by blast
    from 1 have "length b < length f" by (cases us) auto
    with w show ?thesis by simp
  next
    case 2
    from Cons.IH[OF 2(2)] obtain r
      where r: "us = concat (take (whole fs (length us)) fs) @ r" "waiting r" by blast
    have "b = concat (take (whole (f # fs) (length b)) (f # fs)) @ r"
      using 2(1) r(1) by simp
    with r(2) show ?thesis by blast
  qed
qed

lemma process_prefix:
  assumes "list_all2 well_formed ms frames" "concat frames = b @ rest"
      and "error_listener s \<or> (\<forall>m \<in> set ms. readable P m)"
  shows "\<exists>r. waiting r \<and> b = concat (take (whole frames (length b)) frames) @ r
           \<and> process P (s\<lparr>buffer := b\<rparr>)
               = (deliver_all P (take (whole frames (length b)) ms) s)\<lparr>buffer := r\<rparr>"
proof -
  let ?n = "whole frames (length b)"
  from whole_split[OF assms(1,2)] obtain r
    where r: "b = concat (take ?n frames) @ r" "waiting r" by blast
  have wf: "list_all2 well_formed (take ?n ms) (take ?n frames)"
    using assms(1) by (rule list_all2_takeI)
  have h: "error_listener s \<or> (\<forall>m \<in> set (take ?n ms). readable P m)"
    using assms(3) by (auto dest: in_set_takeD)
  have "process P (s\<lparr>buffer := concat (take ?n frames) @ r\<rparr>)
          = process P ((deliver_all P (take ?n ms) s)\<lparr>buffer := r\<rparr>)"
    by (rule process_frames[OF wf h])
  also have "\<dots> = (deliver_all P (take ?n ms) s)\<lparr>buffer := r\<rparr>"
    using r(2) by (simp add: process_idle waiting_def)
  finally show ?thesis using r by (metis (no_types))
qed

lemma handleData_empty_buffer: "buffer s = [] \<Longrightarrow> handleData P d s = process P (s\<lparr>buffer := d\<rparr>)"
  by (simp add: handleData_def)

lemma receive_snoc: "receive P (cs @ [c]) s = handleData P c (receive P cs s)"
  by (induction cs arbitrary: s) simp_all

lemma receive_prefix:
  assumes "list_all2 well_formed ms frames" "buffer s = []"
      and "error_listener s \<or> (\<forall>m \<in> set ms. readable P m)"
  shows "concat frames = concat chunks @ rest \<Longrightarrow> receive P chunks s = handleData P (concat chunks) s"
proof (induction chunks arbitrary: rest rule: rev_induct)
  case Nil
  then show ?case using assms(2) by (simp add: handleData_def process_idle)
next
  case (snoc c cs)
  let ?n = "whole frames (length (concat cs))"
  from snoc.prems have pre: "concat frames = concat cs @ (c @ rest)" by simp
  from snoc.IH[OF pre] have ih: "receive P cs s = process P (s\<lparr>buffer := concat cs\<rparr>)"
    by (simp add: handleData_empty_buffer assms(2))
  from process_prefix[OF assms(1) pre assms(3)] obtain r
    where r: "waiting r" "concat cs = concat (take ?n frames) @ r"
      "process P (s\<lparr>buffer := concat cs\<rparr>) = (deliver_all P (take ?n ms) s)\<lparr>buffer := r\<rparr>"
    by blast
  have wf: "list_all2 well_formed (take ?n ms) (take ?n frames)"
    using assms(1) by (rule list_all2_takeI)
  have h: "error_listener s \<or> (\<forall>m \<in> set (take ?n ms). readable P m)"
    using assms(3) by (auto dest: in_set_takeD)
  have "receive P (cs @ [c]) s = process P ((deliver_all P (take ?n ms) s)\<lparr>buffer := r @ c\<rparr>)"
    by (simp add: receive_snoc ih r(3) handleData_def)
  also have "\<dots> = process P (s\<lparr>buffer := concat (take ?n frames) @ (r @ c)\<rparr>)"
    by (rule process_frames[OF wf h, symmetric])
  also have "concat (take ?n frames) @ (r @ c) = concat cs @ c"
    by (metis r(2) append.assoc)
  finally show ?case by (simp add: handleData_empty_buffer assms(2))
qed

lemma handleData_frames:
  assumes "list_all2 well_formed ms frames" "buffer s = []"
      and "error_listener s \<or> (\<forall>m \<in> set ms. readable P m)"
  shows "handleData P (concat frames) s = deliver_all P ms s"
proof -
  have "buffer (deliver_all P ms s) = []" using assms(2) by simp
  then have "(deliver_all P ms s)\<lparr>buffer := []\<rparr> = deliver_all P ms s"
    by (cases "deliver_all P ms s") simp
  then show ?thesis by (simp add: handleData_empty_buffer assms(2) process_all[OF assms(1,3)])
qed

subsection \<open>Reassembly\<close>



subsection \<open>Sending while not connected\<close>

text \<open>
  C8. For every message kind and payload, \<open>_sendMessage\<close> on a client that is not
  connected rejects the call with the not-connected failure and does nothing else: no
  bytes are written to the socket and the queue of pending requests is unchanged.
\<close>

theorem send_when_not_connected:
  assumes "\<not> connected s"
  shows "sendMessage P msgType data s = s\<lparr>effects := effects s @ [Reject_send Not_connected]\<rparr>
         \<and> effects (sendMessage P msgType data s) = effects s @ [Reject_send Not_connected]
         \<and> pendingRequests (sendMessage P msgType data s) = pendingRequests s"
  using assms by (simp add: sendMessage_def perform_def)

theorem send_when_not_connected_witness:
  "\<not> connected (constructor True 30000 :: nat client)
   \<and> sendMessage fixint_payloads 9 0 (constructor True 30000)
      = (constructor True 30000)\<lparr>effects := [Reject_send Not_connected]\<rparr>"
  using send_when_not_connected[of "constructor True 30000" fixint_payloads 9 0]
  by (simp add: constructor_def)

subsection \<open>Corrupt frames\<close>

lemma waiting_prefix: "waiting (b @ c) \<Longrightarrow> waiting b"
  by (cases "length b < 12") (auto simp: waiting_def read_append)

lemma receive_waiting:
  "waiting (buffer s @ concat chunks) \<Longrightarrow> receive P chunks s = s\<lparr>buffer := buffer s @ concat chunks\<rparr>"
proof (induction chunks arbitrary: s)
  case Nil
  then show ?case by simp
next
  case (Cons c cs)
  from Cons.prems have "waiting (buffer s @ c)" using waiting_prefix[of "buffer s @ c" "concat cs"] by simp
  then have h: "handleData P c s = s\<lparr>buffer := buffer s @ c\<rparr>"
    by (simp add: handleData_def process_idle waiting_def)
  show ?case using Cons.IH[of "s\<lparr>buffer := buffer s @ c\<rparr>"] Cons.prems by (simp add: h)
qed

lemma process_reported:
  assumes "12 + readUInt32BE (buffer s) 8 \<le> length (buffer s)"
      and "readUInt32BE (buffer s) 0 \<noteq> MAGIC"
      and "has_socket s" and "listening s"
  shows "process P s
         = perform [Socket_destroy] (report (Invalid_protocol_magic (readUInt32BE (buffer s) 0)) s)"
  using assms by (simp add: process_corrupt emit_error_def)

text \<open>
  C9. The magic field is checked only once the declared payload is buffered. While a
  header with a wrong magic has fewer payload bytes behind it than it declares, however
  the bytes were chunked, no error is reported and no byte is consumed; the failure is
  reported by the chunk that completes the declared length, and not before (the report
  itself is that of a client with a socket and a listener for the error event).
\<close>

theorem magic_checked_after_payload:
  assumes "buffer s = []"
      and "length header = 12"
      and "readUInt32BE header 0 \<noteq> MAGIC"
      and "concat chunks = header @ tail"
      and "length tail < readUInt32BE header 8"
  shows "receive P chunks s = s\<lparr>buffer := header @ tail\<rparr>
       \<and> (\<forall>chunk. readUInt32BE header 8 \<le> length tail + length chunk \<longrightarrow>
             has_socket s \<longrightarrow> listening s \<longrightarrow>
             receive P (chunks @ [chunk]) s =
               perform [Socket_destroy]
                 (report (Invalid_protocol_magic (readUInt32BE header 0))
                    (s\<lparr>buffer := header @ tail @ chunk\<rparr>)))"
proof (intro conjI allI impI)
  have r8: "\<And>x. readUInt32BE (header @ x) 8 = readUInt32BE header 8"
    and r0: "\<And>x. readUInt32BE (header @ x) 0 = readUInt32BE header 0"
    using assms(2) by (simp_all add: read_append)
  have "waiting (header @ tail)" using assms(2,5) by (simp add: waiting_def r8)
  then show first: "receive P chunks s = s\<lparr>buffer := header @ tail\<rparr>"
    using receive_waiting[of s chunks P] assms(1,4) by simp
  fix chunk :: bytes
  assume full: "readUInt32BE header 8 \<le> length tail + length chunk"
    and sock: "has_socket s" and lis: "listening s"
  let ?s = "s\<lparr>buffer := header @ tail @ chunk\<rparr>"
  have "process P ?s = perform [Socket_destroy]
                 (report (Invalid_protocol_magic (readUInt32BE header 0)) ?s)"
    using process_reported[of ?s P] assms(2,3) full sock lis
    by (simp add: r8 r0 listening_def)
  then show "receive P (chunks @ [chunk]) s =
               perform [Socket_destroy]
                 (report (Invalid_protocol_magic (readUInt32BE header 0)) ?s)"
    by (simp add: receive_snoc first handleData_def)
qed

theorem magic_checked_after_payload_witness:
  "receive fixint_payloads [[0, 0, 0, 0, 1], [0x81, 0, 0, 0, 0, 0, 2, 5]]
       (on (connect (constructor True 30000)))
     = (on (connect (constructor True 30000)))\<lparr>buffer := [0, 0, 0, 0, 1, 0x81, 0, 0, 0, 0, 0, 2, 5]\<rparr>
   \<and> receive fixint_payloads ([[0, 0, 0, 0, 1], [0x81, 0, 0, 0, 0, 0, 2, 5]] @ [[6]])
        (on (connect (constructor True 30000)))
     = (on (connect (constructor True 30000)))
         \<lparr>buffer := [0, 0, 0, 0, 1, 0x81, 0, 0, 0, 0, 0, 2, 5, 6],
          effects := [Set_timeout Connection_timer 30000, Socket_create,
                      Emit (Error_event (Invalid_protocol_magic 0)), Socket_destroy]\<rparr>"
proof -
  let ?s = "on (connect (constructor True 30000)) :: nat client"
  have b: "buffer ?s = []" and sk: "has_socket ?s" and ls: "listening ?s"
    by (simp_all add: constructor_def connect_def on_def perform_def listening_def)
  have l: "length [0, 0, 0, 0, 1, 0x81, 0, 0, 0, 0, 0, 2 :: byte] = 12" by simp
  have m: "readUInt32BE [0, 0, 0, 0, 1, 0x81, 0, 0, 0, 0, 0, 2] 0 \<noteq> MAGIC"
    by (simp add: readUInt32BE_def MAGIC_def)
  have m0: "readUInt32BE [0, 0, 0, 0, 1, 0x81, 0, 0, 0, 0, 0, 2] 0 = 0"
    by (simp add: readUInt32BE_def)
  have n: "readUInt32BE [0, 0, 0, 0, 1, 0x81, 0, 0, 0, 0, 0, 2] 8 = 2"
    by (simp add: readUInt32BE_def)
  have t: "length [5 :: byte] < readUInt32BE [0, 0, 0, 0, 1, 0x81, 0, 0, 0, 0, 0, 2] 8"
    by (simp add: n)
  have c: "concat [[0, 0, 0, 0, 1], [0x81, 0, 0, 0, 0, 0, 2, 5 :: byte]]
        = [0, 0, 0, 0, 1, 0x81, 0, 0, 0, 0, 0, 2] @ [5]" by simp
  note r = magic_checked_after_payload[OF b l m c t, of fixint_payloads]
  have t2: "readUInt32BE [0, 0, 0, 0, 1, 0x81, 0, 0, 0, 0, 0, 2] 8 \<le> length [5 :: byte] + length [6 :: byte]"
    by (simp add: n)
  note r1 = r[THEN conjunct1] and r2 = r[THEN conjunct2, rule_format, OF t2 sk ls]
  show ?thesis
    by (simp only: r1 r2)
       (simp add: m0 constructor_def connect_def on_def perform_def report_def)
qed




lemma flags_perform [simp]:
  "connected (perform es s) = connected s" "connecting (perform es s) = connecting s"
  "autoReconnect (perform es s) = autoReconnect s" "pendingRequests (perform es s) = pendingRequests s"
  "effects (perform es s) = effects s @ es" "requestId (perform es s) = requestId s"
  "has_socket (perform es s) = has_socket s" "error_listener (perform es s) = error_listener s"
  "once_error (perform es s) = once_error s"
  by (simp_all add: perform_def)

lemma flags_deliver:
  "deliver P k p s = Inl s1 \<Longrightarrow>
   connected s1 = connected s \<and> connecting s1 = connecting s \<and> autoReconnect s1 = autoReconnect s"
  "deliver P k p s = Inr s1 \<Longrightarrow>
   connected s1 = connected s \<and> connecting s1 = connecting s \<and> autoReconnect s1 = autoReconnect s"
  by (auto simp: deliver_def handleMessage_def emit_error_def report_def Let_def
      split: option.splits list.splits sum.splits if_splits)

lemma flags_process [simp]:
  "connected (process P s) = connected s \<and> connecting (process P s) = connecting s
   \<and> autoReconnect (process P s) = autoReconnect s"
proof (induction P s rule: process.induct)
  case (1 P s)
  show ?case
  proof (cases "waiting (buffer s)")
    case True
    then show ?thesis by (simp add: process_idle waiting_def)
  next
    case False
    then have full: "12 \<le> length (buffer s)" "12 + readUInt32BE (buffer s) 8 \<le> length (buffer s)"
      by (auto simp: waiting_def)
    show ?thesis
    proof (cases "readUInt32BE (buffer s) 0 = MAGIC")
      case False
      with full show ?thesis
        by (simp add: process_corrupt emit_error_def report_def)
    next
      case True
      let ?s0 = "s\<lparr>buffer := drop (12 + readUInt32BE (buffer s) 8) (buffer s)\<rparr>"
      let ?d = "deliver P (readUInt8 (buffer s) 5)
             (slice_buf (buffer s) 12 (12 + readUInt32BE (buffer s) 8)) ?s0"
      show ?thesis
      proof (cases ?d)
        case (Inl s1)
        from flags_deliver(1)[OF Inl] have "connected s1 = connected s \<and> connecting s1 = connecting s
              \<and> autoReconnect s1 = autoReconnect s" by simp
        then show ?thesis using full True Inl by (simp add: process_step)
      next
        case (Inr s1)
        from "1.IH"[OF full(1) refl refl refl _ _ Inr] full True
        have "connected (process P s1) = connected s1 \<and> connecting (process P s1) = connecting s1
              \<and> autoReconnect (process P s1) = autoReconnect s1" by simp
        moreover from flags_deliver(2)[OF Inr]
        have "connected s1 = connected s \<and> connecting s1 = connecting s
              \<and> autoReconnect s1 = autoReconnect s" by simp
        ultimately show ?thesis using full True Inr by (simp add: process_step)
      qed
    qed
  qed
qed

lemma flags_sendMessage [simp]:
  "connected (sendMessage P k d s) = connected s" "connecting (sendMessage P k d s) = connecting s"
  by (simp_all add: sendMessage_def split: sum.split)

lemma step_flags:
  assumes "connected s \<longrightarrow> \<not> connecting s"
  shows "connected (step P i s) \<longrightarrow> \<not> connecting (step P i s)"
  using assms
  by (cases i) (auto simp: connect_def disconnect_def on_def on_connect_def handleData_def
      on_error_def on_close_def on_timer_def emit_error_def report_def Let_def
      split: timer.split sum.split if_splits)

lemma reachable_flags: "reachable P s \<Longrightarrow> connected s \<longrightarrow> \<not> connecting s"
proof (induction rule: reachable.induct)
  case (start auto ms)
  show ?case by (simp add: constructor_def)
next
  case (next_step s i)
  from next_step.IH show ?case by (rule step_flags)
qed

subsection \<open>Unexpected closure\<close>

text \<open>
  C6. In every reachable state in which the client is connected and auto-reconnect is
  enabled (no \<open>disconnect\<close> has been requested, which would disable it), the close
  handler first rejects every pending request with the connection-closed failure, in
  queue order, and empties the queue, and only then schedules one reconnection attempt,
  one second later. Nothing else happens except the disconnect event, emitted first.
\<close>

theorem close_rejects_then_reconnects:
  assumes "reachable P s" and "connected s" and "autoReconnect s"
  shows "on_close s =
           s\<lparr>connected := False, pendingRequests := [],
             effects := effects s @ [Emit Disconnect_event]
                          @ map (\<lambda>request. Reject request Connection_closed) (pendingRequests s)
                          @ [Set_timeout Reconnect_timer 1000]\<rparr>"
proof -
  from reachable_flags[OF assms(1)] assms(2) have "\<not> connecting s" by simp
  with assms(3) show ?thesis by (simp add: on_close_def perform_def Let_def)
qed

theorem close_rejects_then_reconnects_witness:
  "reachable fixint_payloads
     (step fixint_payloads (Call_send 9 0)
       (step fixint_payloads On_connect (step fixint_payloads Call_connect (constructor True 30000))))
   \<and> pendingRequests (step fixint_payloads (Call_send 9 0)
       (step fixint_payloads On_connect (step fixint_payloads Call_connect (constructor True 30000))))
      = [0, 1]
   \<and> effects (on_close (step fixint_payloads (Call_send 9 0)
       (step fixint_payloads On_connect (step fixint_payloads Call_connect (constructor True 30000)))))
      = effects (step fixint_payloads (Call_send 9 0)
       (step fixint_payloads On_connect (step fixint_payloads Call_connect (constructor True 30000))))
        @ [Emit Disconnect_event, Reject 0 Connection_closed, Reject 1 Connection_closed,
           Set_timeout Reconnect_timer 1000]"
proof -
  let ?s = "step fixint_payloads (Call_send 9 0)
       (step fixint_payloads On_connect (step fixint_payloads Call_connect (constructor True 30000)))"
  have r: "reachable fixint_payloads ?s"
    by (intro reachable.next_step reachable.start)
  have c: "connected ?s" "autoReconnect ?s"
    by (simp_all add: connect_def on_connect_def constructor_def sendMessage_def perform_def
        split: sum.split)
  have p: "pendingRequests ?s = [0, 1]"
    by (simp add: connect_def on_connect_def constructor_def sendMessage_def perform_def
        build_message_eq MSG_CONNECT_def fixint_payloads_def)
  show ?thesis
    using close_rejects_then_reconnects[OF r c] r p by simp
qed

subsection \<open>Correlation of responses\<close>

lemma run_snoc: "run P (inputs @ [i]) s = step P i (run P inputs s)"
  by (induction inputs arbitrary: s) simp_all

lemma sent_append: "sent (xs @ ys) = sent xs @ sent ys"
  by (induction xs rule: sent.induct) simp_all

lemma received_append: "received (xs @ ys) = received xs @ received ys"
  by (induction xs rule: received.induct) simp_all

lemma whole_mono: "a \<le> b \<Longrightarrow> whole frames a \<le> whole frames b"
  by (induction frames arbitrary: a b) auto

lemma whole_zero:
  assumes "list_all2 well_formed ms frames"
  shows "whole frames 0 = 0"
proof (cases frames)
  case Nil
  then show ?thesis by simp
next
  case (Cons f fs)
  with assms obtain m where "well_formed m f" by (auto simp: list_all2_Cons2)
  then have "length f = 12 + length (snd m)"
    using frame_fields(1)[of "fst m" "snd m" f] by (simp add: well_formed_def)
  then show ?thesis by (simp add: Cons)
qed

lemma zip_take_left: "zip (take k xs) ys = take k (zip xs ys)"
proof (induction xs arbitrary: k ys)
  case Nil
  then show ?case by simp
next
  case (Cons x xs)
  then show ?case by (cases k; cases ys) simp_all
qed

lemma settled_append [simp]: "settled (xs @ ys) = settled xs @ settled ys"
  by (simp add: settled_def)

lemma settled_outcomes [simp]: "settled (map2 expected_outcome rs qs) = map2 expected_outcome rs qs"
  by (induction rs qs rule: list_induct2') (simp_all add: settled_def expected_outcome_def)

lemma decodes_readable: "decodes P r \<Longrightarrow> readable P (response_kind r, wire_payload r)"
  by (simp add: decodes_def readable_def)

lemma deliver_settles:
  assumes "decodes P r" "pendingRequests s = q # qs"
  shows "deliver P (response_kind r) (wire_payload r) s
         = Inr (s\<lparr>pendingRequests := qs, effects := effects s @ [expected_outcome r q]\<rparr>)"
  using assms
  by (simp add: deliver_def handleMessage_def decodes_def expected_outcome_def perform_def Let_def)

lemma deliver_all_settles:
  assumes "\<forall>r \<in> set rs. decodes P r" "length rs \<le> length (pendingRequests s)"
  shows "deliver_all P (map (\<lambda>r. (response_kind r, wire_payload r)) rs) s
         = s\<lparr>pendingRequests := drop (length rs) (pendingRequests s),
             effects := effects s @ map2 expected_outcome rs (pendingRequests s)\<rparr>"
  using assms
proof (induction rs arbitrary: s)
  case Nil
  then show ?case by simp
next
  case (Cons r rs)
  from Cons.prems(2) obtain q qs where q: "pendingRequests s = q # qs"
    by (cases "pendingRequests s") auto
  let ?s = "s\<lparr>pendingRequests := qs, effects := effects s @ [expected_outcome r q]\<rparr>"
  have d: "deliver P (response_kind r) (wire_payload r) s = Inr ?s"
    using deliver_settles[OF _ q] Cons.prems(1) by simp
  have "deliver_all P (map (\<lambda>r. (response_kind r, wire_payload r)) rs) ?s
        = ?s\<lparr>pendingRequests := drop (length rs) (pendingRequests ?s),
             effects := effects ?s @ map2 expected_outcome rs (pendingRequests ?s)\<rparr>"
    using Cons.prems q by (intro Cons.IH) auto
  then show ?case by (simp add: d q)
qed

lemma garbled_reported:
  assumes "well_formed (kind, payload) frame" "decode P payload = None"
      and "buffer s = []" "listening s"
  shows "handleData P frame s = report Failed_to_decode s"
proof -
  have d: "deliver P kind payload s = Inr (report Failed_to_decode s)"
    using assms(2,4) by (simp add: deliver_def emit_error_def)
  have "(report Failed_to_decode s)\<lparr>buffer := []\<rparr> = report Failed_to_decode s"
    using assms(3) by (cases s) (simp add: report_def perform_def)
  then show ?thesis
    using process_frame[OF assms(1), where P=P and s=s and rest="[]"] assms(3)
    by (simp add: handleData_def d process_idle)
qed

lemma run_correlation:
  assumes "connected s0" and "buffer s0 = []"
      and "list_all2 (\<lambda>r frame. well_formed (response_kind r, wire_payload r) frame)
             responses frames"
      and "\<forall>r \<in> set responses. decodes P r"
  shows "\<forall>i \<in> set inputs. traffic P i \<Longrightarrow> concat frames = received inputs @ rest \<Longrightarrow>
    \<forall>j \<le> length inputs. whole frames (length (received (take j inputs)))
          \<le> length (pendingRequests s0) + length (sent (take j inputs)) \<Longrightarrow>
    connected (run P inputs s0)
    \<and> requestId (run P inputs s0) = requestId s0 + length (sent inputs)
    \<and> received inputs
        = concat (take (whole frames (length (received inputs))) frames) @ buffer (run P inputs s0)
    \<and> pendingRequests (run P inputs s0)
        = drop (whole frames (length (received inputs)))
            (pendingRequests s0 @ [requestId s0 ..< requestId s0 + length (sent inputs)])
    \<and> settled (effects (run P inputs s0))
        = settled (effects s0)
            @ take (whole frames (length (received inputs)))
                (map2 expected_outcome responses
                   (pendingRequests s0 @ [requestId s0 ..< requestId s0 + length (sent inputs)]))"
proof (induction inputs arbitrary: rest rule: rev_induct)
  case Nil
  have "list_all2 well_formed (map (\<lambda>r. (response_kind r, wire_payload r)) responses) frames"
    using assms(3) by (simp add: list_all2_map1)
  from whole_zero[OF this] show ?case using assms(1,2) by simp
next
  case (snoc i inputs)
  let ?s = "run P inputs s0"
  let ?n = "whole frames (length (received inputs))"
  let ?ids = "pendingRequests s0 @ [requestId s0 ..< requestId s0 + length (sent inputs)]"
  let ?ms = "map (\<lambda>r. (response_kind r, wire_payload r)) responses"
  have wf: "list_all2 well_formed ?ms frames"
    using assms(3) by (simp add: list_all2_map1)
  have len: "length frames = length responses"
    using list_all2_lengthD[OF assms(3)] by simp
  from snoc.prems(1) have tr: "\<forall>i \<in> set inputs. traffic P i" and ti: "traffic P i" by auto
  from snoc.prems(2) have pre: "concat frames = received inputs @ (received [i] @ rest)"
    by (simp add: received_append)
  have ord: "\<forall>j \<le> length inputs. whole frames (length (received (take j inputs)))
          \<le> length (pendingRequests s0) + length (sent (take j inputs))"
  proof (intro allI impI)
    fix j assume j: "j \<le> length inputs"
    then have "take j (inputs @ [i]) = take j inputs" by simp
    moreover from j have "j \<le> length (inputs @ [i])" by simp
    ultimately show "whole frames (length (received (take j inputs)))
          \<le> length (pendingRequests s0) + length (sent (take j inputs))"
      using snoc.prems(3) by metis
  qed
  from snoc.IH[OF tr pre ord]
  have ih: "connected ?s" "requestId ?s = requestId s0 + length (sent inputs)"
    "received inputs = concat (take ?n frames) @ buffer ?s"
    "pendingRequests ?s = drop ?n ?ids"
    "settled (effects ?s) = settled (effects s0) @ take ?n (map2 expected_outcome responses ?ids)"
    by simp_all
  from ord[rule_format, of "length inputs"] have nle: "?n \<le> length ?ids" by simp
  from snoc.prems(3)[rule_format, of "length (inputs @ [i])"]
  have last: "whole frames (length (received (inputs @ [i])))
      \<le> length (pendingRequests s0) + length (sent (inputs @ [i]))"
    by simp
  show ?case
  proof (cases i)
    case (Call_send k d)
    with ti have kd: "k < 256" "length (encode P d) < 2 ^ 32" by simp_all
    have st: "run P (inputs @ [i]) s0 = sendMessage P k d ?s"
      by (simp add: run_snoc Call_send)
    have s: "pendingRequests (sendMessage P k d ?s) = pendingRequests ?s @ [requestId ?s]"
      "requestId (sendMessage P k d ?s) = Suc (requestId ?s)"
      "buffer (sendMessage P k d ?s) = buffer ?s" "connected (sendMessage P k d ?s)"
      "settled (effects (sendMessage P k d ?s)) = settled (effects ?s)"
      using ih(1) by (simp_all add: sendMessage_def build_message_eq[OF kd] perform_def settled_def)
    have se: "sent (inputs @ [i]) = sent inputs @ [(k, d)]" "received (inputs @ [i]) = received inputs"
      by (simp_all add: sent_append received_append Call_send)
    have ids: "pendingRequests s0 @ [requestId s0 ..< requestId s0 + length (sent (inputs @ [i]))]
        = ?ids @ [requestId s0 + length (sent inputs)]"
      by (simp add: se)
    have tk: "take ?n (map2 expected_outcome responses (?ids @ [requestId s0 + length (sent inputs)]))
        = take ?n (map2 expected_outcome responses ?ids)"
      using nle by (simp add: take_map take_zip)
    show ?thesis
      unfolding st ids se(2)
      using s ih nle tk by (simp add: se)
  next
    case (On_data c)
    let ?b' = "received inputs @ c"
    let ?n' = "whole frames (length ?b')"
    have se: "sent (inputs @ [i]) = sent inputs" "received (inputs @ [i]) = ?b'"
      by (simp_all add: sent_append received_append On_data)
    have pre': "concat frames = ?b' @ rest" using snoc.prems(2) by (simp add: se)
    from whole_split[OF wf pre'] obtain r2
      where r2: "?b' = concat (take ?n' frames) @ r2" "waiting r2" by blast
    have mono: "?n \<le> ?n'" by (rule whole_mono) simp
    have n'le: "?n' \<le> length responses" using whole_le[of frames "length ?b'"] len by simp
    have n'ids: "?n' \<le> length ?ids" using last by (simp add: se)
    let ?k = "?n' - ?n"
    let ?R = "take ?k (drop ?n responses)"
    let ?F = "take ?k (drop ?n frames)"
    have tk: "take ?n' frames = take ?n frames @ ?F"
      using mono by (metis le_add_diff_inverse take_add)
    have bc: "buffer ?s @ c = concat ?F @ r2"
    proof -
      have "concat (take ?n frames) @ (buffer ?s @ c) = concat (take ?n frames) @ (concat ?F @ r2)"
        using r2(1) ih(3) tk by (metis append.assoc concat_append)
      then show ?thesis by simp
    qed
    have wfF: "list_all2 well_formed (map (\<lambda>r. (response_kind r, wire_payload r)) ?R) ?F"
      using assms(3) by (simp add: list_all2_map1 list_all2_takeI list_all2_dropI)
    have decR: "\<forall>r \<in> set ?R. decodes P r"
      using assms(4) by (auto dest: in_set_takeD in_set_dropD)
    then have rd: "error_listener ?s
        \<or> (\<forall>m \<in> set (map (\<lambda>r. (response_kind r, wire_payload r)) ?R). readable P m)"
      by (auto intro: decodes_readable)
    have lenR: "length ?R = ?k" using n'le mono by simp
    have enough: "length ?R \<le> length (pendingRequests ?s)"
      using n'ids mono by (simp add: ih(4) lenR)
    let ?t = "deliver_all P (map (\<lambda>r. (response_kind r, wire_payload r)) ?R) ?s"
    have "run P (inputs @ [i]) s0 = process P (?s\<lparr>buffer := concat ?F @ r2\<rparr>)"
      by (simp add: run_snoc On_data handleData_def bc)
    also have "\<dots> = process P (?t\<lparr>buffer := r2\<rparr>)"
      by (rule process_frames[OF wfF rd])
    also have "\<dots> = ?t\<lparr>buffer := r2\<rparr>"
      using r2(2) by (simp add: process_idle waiting_def)
    finally have st: "run P (inputs @ [i]) s0 = ?t\<lparr>buffer := r2\<rparr>" .
    have t: "?t = ?s\<lparr>pendingRequests := drop ?k (pendingRequests ?s),
             effects := effects ?s @ map2 expected_outcome ?R (pendingRequests ?s)\<rparr>"
      by (rule deliver_all_settles[OF decR enough, unfolded lenR])
    have dz: "map2 expected_outcome ?R (drop ?n ?ids)
        = take ?k (drop ?n (map2 expected_outcome responses ?ids))"
      by (simp add: zip_take_left take_map drop_map drop_zip del: drop_append)
    have tt: "take ?n' (map2 expected_outcome responses ?ids)
        = take ?n (map2 expected_outcome responses ?ids)
          @ take ?k (drop ?n (map2 expected_outcome responses ?ids))"
      using mono by (metis le_add_diff_inverse take_add)
    have kn: "?k + ?n = ?n'" using mono by simp
    have dd: "drop ?k (drop ?n ?ids) = drop ?n' ?ids" by (simp only: drop_drop kn)
    let ?u = "?t\<lparr>buffer := r2\<rparr>"
    have f1: "connected ?u" by (subst t) (simp add: ih(1))
    have f2: "requestId ?u = requestId s0 + length (sent inputs)" by (subst t) (simp add: ih(2))
    have "buffer ?u = r2" by simp
    then have f3: "?b' = concat (take ?n' frames) @ buffer ?u" using r2(1) by (simp only:)
    have "pendingRequests ?u = drop ?k (pendingRequests ?s)" by (subst t) simp
    then have f4: "pendingRequests ?u = drop ?n' ?ids" by (simp only: ih(4) dd)
    have "effects ?u = effects ?s @ map2 expected_outcome ?R (pendingRequests ?s)"
      by (subst t) simp
    then have "settled (effects ?u)
        = settled (effects ?s) @ map2 expected_outcome ?R (drop ?n ?ids)"
      by (simp only: settled_append settled_outcomes ih(4))
    then have f5: "settled (effects ?u)
        = settled (effects s0) @ take ?n' (map2 expected_outcome responses ?ids)"
      by (simp only: ih(5) dz tt append_assoc)
    show ?thesis
      unfolding st se
      using f1 f2 f3 f4 f5 by (intro conjI)
  qed (use ti in simp_all)
qed

text \<open>
  C3, as the code has it. The client is connected and its receive buffer is empty. In a
  run of its traffic, requests being sent and data arriving in any interleaving and any
  chunking, let the data be the frames of the responses, in their order, each response
  arriving in full only after its request was sent, and let every response payload
  decode (and the payload of an error response let its \<open>error\<close> property be read). Then
  the responses received in full so far have settled, position by position, the requests
  at the front of the queue, each with the outcome of its own response, and the queue
  holds the other requests in the order they were sent: no request is settled by
  another request's response. A frame whose payload does not decode settles nothing: on
  a listening client it is reported to the error event and the queue is left as it was.
\<close>

theorem fifo_correlation:
  assumes "connected s0" and "buffer s0 = []"
      and "\<forall>i \<in> set inputs. traffic P i"
      and "list_all2 (\<lambda>r frame. well_formed (response_kind r, wire_payload r) frame)
             responses frames"
      and "\<forall>r \<in> set responses. decodes P r"
      and "concat frames = received inputs @ rest"
      and "\<forall>j \<le> length inputs. whole frames (length (received (take j inputs)))
             \<le> length (pendingRequests s0) + length (sent (take j inputs))"
  shows "pendingRequests (run P inputs s0)
           = drop (whole frames (length (received inputs)))
               (pendingRequests s0 @ [requestId s0 ..< requestId s0 + length (sent inputs)])
       \<and> settled (effects (run P inputs s0))
           = settled (effects s0)
               @ take (whole frames (length (received inputs)))
                   (map2 expected_outcome responses
                      (pendingRequests s0 @ [requestId s0 ..< requestId s0 + length (sent inputs)]))
       \<and> (\<forall>s kind payload frame.
             well_formed (kind, payload) frame \<longrightarrow> decode P payload = None \<longrightarrow>
             buffer s = [] \<longrightarrow> listening s \<longrightarrow>
             handleData P frame s = report Failed_to_decode s
             \<and> pendingRequests (handleData P frame s) = pendingRequests s)"
proof (intro conjI allI impI)
  note r = run_correlation[OF assms(1,2,4,5,3,6,7)]
  from r show "pendingRequests (run P inputs s0)
           = drop (whole frames (length (received inputs)))
               (pendingRequests s0 @ [requestId s0 ..< requestId s0 + length (sent inputs)])"
    by simp
  from r show "settled (effects (run P inputs s0))
           = settled (effects s0)
               @ take (whole frames (length (received inputs)))
                   (map2 expected_outcome responses
                      (pendingRequests s0 @ [requestId s0 ..< requestId s0 + length (sent inputs)]))"
    by simp
next
  fix s :: "'a client" and kind payload frame
  assume a: "well_formed (kind, payload) frame" "decode P payload = None" "buffer s = []" "listening s"
  from garbled_reported[OF a] show "handleData P frame s = report Failed_to_decode s" .
  then show "pendingRequests (handleData P frame s) = pendingRequests s" by simp
qed

theorem fifo_correlation_witness:
  "pendingRequests
     (run fixint_payloads
        [On_data [0x4E, 0x45, 0x58, 0x41, 1, 0x81, 0, 0, 0, 0], Call_send 9 1,
         On_data [0, 1, 5, 0x4E, 0x45, 0x58, 0x41, 1, 0x82, 0, 0, 0, 0, 0, 1, 7]]
        (on_connect fixint_payloads (connect (on (constructor True 30000))))) = []
   \<and> settled (effects
     (run fixint_payloads
        [On_data [0x4E, 0x45, 0x58, 0x41, 1, 0x81, 0, 0, 0, 0], Call_send 9 1,
         On_data [0, 1, 5, 0x4E, 0x45, 0x58, 0x41, 1, 0x82, 0, 0, 0, 0, 0, 1, 7]]
        (on_connect fixint_payloads (connect (on (constructor True 30000))))))
     = [Resolve 0 5, Reject 1 (Server_error ''Unknown error'')]
   \<and> handleData fixint_payloads [0x4E, 0x45, 0x58, 0x41, 1, 0x81, 0, 0, 0, 0, 0, 2, 0xA5, 0x61]
        (on_connect fixint_payloads (connect (on (constructor True 30000))))
     = report Failed_to_decode (on_connect fixint_payloads (connect (on (constructor True 30000))))"
proof -
  let ?P = fixint_payloads
  let ?s0 = "on_connect ?P (connect (on (constructor True 30000)))"
  let ?inputs = "[On_data [0x4E, 0x45, 0x58, 0x41, 1, 0x81, 0, 0, 0, 0], Call_send 9 1,
         On_data [0, 1, 5, 0x4E, 0x45, 0x58, 0x41, 1, 0x82, 0, 0, 0, 0, 0, 1, 7]] :: nat input list"
  let ?r1 = "\<lparr>response_kind = 0x81, wire_payload = [5], decoded = 5 :: nat, server_message = []\<rparr>"
  let ?r2 = "\<lparr>response_kind = 0x82, wire_payload = [7], decoded = 7 :: nat,
              server_message = ''Unknown error''\<rparr>"
  let ?frames = "[[0x4E, 0x45, 0x58, 0x41, 1, 0x81, 0, 0, 0, 0, 0, 1, 5],
                  [0x4E, 0x45, 0x58, 0x41, 1, 0x82, 0, 0, 0, 0, 0, 1, 7 :: byte]]"
  have s0: "connected ?s0" "buffer ?s0 = []" "pendingRequests ?s0 = [0]" "requestId ?s0 = 1"
    "settled (effects ?s0) = []" "listening ?s0"
    by (simp_all add: connect_def on_def on_connect_def constructor_def sendMessage_def perform_def
        build_message_eq MSG_CONNECT_def fixint_payloads_def settled_def listening_def)
  have tr: "\<forall>i \<in> set ?inputs. traffic ?P i"
    by (simp add: fixint_payloads_def)
  have wf: "list_all2 (\<lambda>r frame. well_formed (response_kind r, wire_payload r) frame)
              [?r1, ?r2] ?frames"
    by (simp add: well_formed_def build_message_eq)
  have dec: "\<forall>r \<in> set [?r1, ?r2]. decodes ?P r"
    by (simp add: decodes_def fixint_payloads_def MSG_ERROR_def)
  have ch: "concat ?frames = received ?inputs @ []" by simp
  have ord: "\<forall>j \<le> length ?inputs. whole ?frames (length (received (take j ?inputs)))
             \<le> length (pendingRequests ?s0) + length (sent (take j ?inputs))"
  proof (intro allI impI)
    fix j assume "j \<le> length ?inputs"
    then have "j = 0 \<or> j = 1 \<or> j = 2 \<or> j = 3" by auto
    then show "whole ?frames (length (received (take j ?inputs)))
             \<le> length (pendingRequests ?s0) + length (sent (take j ?inputs))"
      by (elim disjE) (simp_all add: s0(3))
  qed
  have g: "well_formed (0x81, [0xA5, 0x61])
             [0x4E, 0x45, 0x58, 0x41, 1, 0x81, 0, 0, 0, 0, 0, 2, 0xA5, 0x61]"
    "decode ?P [0xA5, 0x61] = None"
    by (simp_all add: well_formed_def build_message_eq fixint_payloads_def)
  note r = fifo_correlation[OF s0(1,2) tr wf dec ch ord]
  have w: "whole ?frames (length (received ?inputs)) = 2" by simp
  have o: "map2 expected_outcome [?r1, ?r2]
             (pendingRequests ?s0 @ [requestId ?s0 ..< requestId ?s0 + length (sent ?inputs)])
           = [Resolve 0 5, Reject 1 (Server_error ''Unknown error'')]"
    by (simp add: s0(3,4) expected_outcome_def MSG_SUCCESS_def MSG_PONG_def MSG_ERROR_def)
  have q: "pendingRequests ?s0 @ [requestId ?s0 ..< requestId ?s0 + length (sent ?inputs)] = [0, 1]"
    by (simp add: s0(3,4))
  have c1: "pendingRequests (run ?P ?inputs ?s0) = []"
    by (simp only: r[THEN conjunct1] w q) simp
  have c2: "settled (effects (run ?P ?inputs ?s0))
      = [Resolve 0 5, Reject 1 (Server_error ''Unknown error'')]"
    by (simp only: r[THEN conjunct2, THEN conjunct1] w o s0(5)) simp
  have c3: "handleData ?P [0x4E, 0x45, 0x58, 0x41, 1, 0x81, 0, 0, 0, 0, 0, 2, 0xA5, 0x61] ?s0
      = report Failed_to_decode ?s0"
    using r[THEN conjunct2, THEN conjunct2, rule_format, OF g s0(2,6)] by simp
  show ?thesis by (intro conjI c1 c2 c3)
qed

text \<open>
  Claim C3 as stated fails when a response does not decode. The handshake (request 0) and
  a ping (request 1) are pending on a listening client; the first response is a success
  frame whose payload is a MessagePack string cut short, the second a pong with payload
  7. The first frame settles nothing: the failure to decode goes to the error event and
  the queue is left as it was. The second frame then settles request 0 with the payload
  of the response to request 1, and request 1 stays pending.
\<close>

theorem fifo_correlation_counterexample:
  "well_formed (0x81, [0xA5, 0x61]) [0x4E, 0x45, 0x58, 0x41, 1, 0x81, 0, 0, 0, 0, 0, 2, 0xA5, 0x61]
   \<and> well_formed (0x88, [7]) [0x4E, 0x45, 0x58, 0x41, 1, 0x88, 0, 0, 0, 0, 0, 1, 7]
   \<and> pendingRequests (send_all fixint_payloads [(9, 1)]
          (on_connect fixint_payloads (connect (on (constructor True 30000))))) = [0, 1]
   \<and> receive fixint_payloads
       [[0x4E, 0x45, 0x58, 0x41, 1, 0x81, 0, 0, 0, 0, 0, 2, 0xA5, 0x61],
        [0x4E, 0x45, 0x58, 0x41, 1, 0x88, 0, 0, 0, 0, 0, 1, 7]]
       (send_all fixint_payloads [(9, 1)]
          (on_connect fixint_payloads (connect (on (constructor True 30000)))))
     = (send_all fixint_payloads [(9, 1)]
          (on_connect fixint_payloads (connect (on (constructor True 30000)))))
         \<lparr>pendingRequests := [1],
          effects := effects (send_all fixint_payloads [(9, 1)]
                        (on_connect fixint_payloads (connect (on (constructor True 30000)))))
                     @ [Emit (Error_event Failed_to_decode), Resolve 0 7]\<rparr>"
proof -
  let ?P = fixint_payloads
  let ?s = "send_all ?P [(9, 1)] (on_connect ?P (connect (on (constructor True 30000))))"
  let ?f1 = "[0x4E, 0x45, 0x58, 0x41, 1, 0x81, 0, 0, 0, 0, 0, 2, 0xA5, 0x61 :: byte]"
  let ?f2 = "[0x4E, 0x45, 0x58, 0x41, 1, 0x88, 0, 0, 0, 0, 0, 1, 7 :: byte]"
  let ?s1 = "?s\<lparr>effects := effects ?s @ [Emit (Error_event Failed_to_decode)]\<rparr>"
  have w1: "well_formed (0x81, [0xA5, 0x61]) ?f1" and w2: "well_formed (0x88, [7]) ?f2"
    by (simp_all add: well_formed_def build_message_eq)
  have s: "pendingRequests ?s = [0, 1]" "buffer ?s = []" "error_listener ?s" "once_error ?s = 0"
    by (simp_all add: connect_def on_def on_connect_def constructor_def sendMessage_def perform_def
        build_message_eq MSG_CONNECT_def fixint_payloads_def)
  have d1: "deliver ?P 0x81 [0xA5, 0x61] ?s = Inr ?s1"
    using s(3,4) by (simp add: deliver_def fixint_payloads_def emit_error_listener report_def perform_def)
  have d2: "deliver ?P 0x88 [7] ?s1
      = Inr (?s\<lparr>pendingRequests := [1],
            effects := effects ?s @ [Emit (Error_event Failed_to_decode), Resolve 0 7]\<rparr>)"
    using s(1) by (simp add: deliver_def handleMessage_def perform_def MSG_SUCCESS_def MSG_PONG_def
         fixint_payloads_def)
  have wf: "list_all2 well_formed [(0x81, [0xA5, 0x61]), (0x88, [7])] [?f1, ?f2]"
    using w1 w2 by simp
  have l: "error_listener ?s \<or> (\<forall>m \<in> set [(0x81, [0xA5, 0x61]), (0x88, [7])]. readable ?P m)"
    using s(3) by simp
  have "receive ?P [?f1, ?f2] ?s = handleData ?P (concat [?f1, ?f2]) ?s"
    using receive_prefix[OF wf s(2) l, of "[?f1, ?f2]" "[]"] by simp
  also have "\<dots> = deliver_all ?P [(0x81, [0xA5, 0x61]), (0x88, [7])] ?s"
    by (rule handleData_frames[OF wf s(2) l])
  also have "\<dots> = ?s\<lparr>pendingRequests := [1],
            effects := effects ?s @ [Emit (Error_event Failed_to_decode), Resolve 0 7]\<rparr>"
    by (simp only: deliver_all.simps fst_conv snd_conv d1 d2 sum.case)
  finally have r: "receive ?P [?f1, ?f2] ?s = ?s\<lparr>pendingRequests := [1],
            effects := effects ?s @ [Emit (Error_event Failed_to_decode), Resolve 0 7]\<rparr>" .
  show ?thesis by (intro conjI w1 w2 s(1) r)
qed

section \<open>Properties of the TOON format\<close>

subsection \<open>Evaluation\<close>

lemma digits_small: "n < 10 \<Longrightarrow> digits n = [digit_char n]"
  by (simp add: digits.simps)

lemma replicate_numeral: "replicate (numeral k) x = x # replicate (pred_numeral k) x"
  by (simp add: numeral_eq_Suc)

lemmas eval_simps = replicate_numeral parse_def trim_def is_space_def parseLines.simps
  str_includes_def indent_of_def trimStart_def serialize.simps serializeObject.simps
  serializeArrayWithKey.simps serializeArray.simps is_object_def is_primitive_def
  serializeTabularArray_def all_keys_def spaces_def serializePrimitive_def property_def
  number_to_string_def digits_small digit_char_def indexOf_def substring_def
  substring_from_def parseArrayDeclaration_def parseInt_def is_radix_digit_def is_digit_def
  radix_value_def digit_value_def parseRows.simps parseCSVRow_def parsePrimitive_def
  startsWith_def endsWith_def matches_number_def Let_def

subsection \<open>Tabular arrays\<close>

text \<open>
  C2. The sequence of the two mappings \<open>{a: 1, b: 2}\<close> and \<open>{a: 3, b: 4}\<close>, given to
  \<open>serialize\<close> as it is, takes the path of \<open>_serializeTabularArray\<close>, which collects
  the column names and then writes the rows only: the text is the two lines \<open>1,2\<close>
  and \<open>3,4\<close> with no header line, and parsing it gives the empty mapping.
\<close>

theorem top_level_tabular_array:
  "serialize 2 (JArr [JObj [(''a'', JNum 1), (''b'', JNum 2)],
                      JObj [(''a'', JNum 3), (''b'', JNum 4)]]) 0
     = ''1,2'' @ [CHR 0x0A] @ ''3,4''
   \<and> parse (serialize 2 (JArr [JObj [(''a'', JNum 1), (''b'', JNum 2)],
                             JObj [(''a'', JNum 3), (''b'', JNum 4)]]) 0)
     = Inr (JObj [])"
  by (simp add: eval_simps cong: let_weak_cong)

text \<open>
  The same sequence as the value of a key takes the path of \<open>_serializeArrayWithKey\<close>,
  which does write the header with the length and the column names, and the text parses
  back to what was serialized.
\<close>

lemma keyed_tabular_array:
  "serialize 2 (JObj [(''rows'', JArr [JObj [(''a'', JNum 1), (''b'', JNum 2)],
                      JObj [(''a'', JNum 3), (''b'', JNum 4)]])]) 0
     = ''rows[2]{a,b}:'' @ [CHR 0x0A] @ ''  1,2'' @ [CHR 0x0A] @ ''  3,4''
   \<and> parse (serialize 2 (JObj [(''rows'', JArr [JObj [(''a'', JNum 1), (''b'', JNum 2)],
                      JObj [(''a'', JNum 3), (''b'', JNum 4)]])]) 0)
     = Inr (JObj [(''rows'', JArr [JObj [(''a'', JNum 1), (''b'', JNum 2)],
                      JObj [(''a'', JNum 3), (''b'', JNum 4)]])])"
  by (simp add: eval_simps cong: let_weak_cong)

subsection \<open>Trimming\<close>

lemma trim_Nil [simp]: "trim [] = []"
  by (simp add: trim_def)









subsection \<open>Taking a line apart\<close>





subsection \<open>One step of the parser\<close>







subsection \<open>Numbers\<close>







lemma radix_10 [simp]: "is_radix_digit 10 = is_digit"
  by (rule ext) (simp add: is_radix_digit_def)





subsection \<open>JSON string literals\<close>


lemma prepend_simps [simp]:
  "prepend c (Inr s) = Inr (c # s)" "prepend c (Inl e) = Inl e"
  by (simp_all add: prepend_def)






subsection \<open>The text of a scalar\<close>




subsection \<open>Lines\<close>

lemma split_nonempty [simp]: "split sep s \<noteq> []"
  by (induction s) (auto split: list.split)






subsection \<open>The view of a serialized line\<close>


lemma mapping_tree_JObj:
  "mapping_tree (JObj obj) \<longleftrightarrow> obj \<noteq> [] \<and> distinct (map fst obj) \<and> entries_ok obj"
  by (simp add: entries_ok_def)


lemma not_space_colon [simp]: "\<not> is_space CHR '':''"
  by (simp add: is_space_def)

lemma space_space [simp]: "is_space CHR '' ''"
  by (simp add: is_space_def)



lemma key_head: "plain_key k \<Longrightarrow> hd (k @ CHR '':'' # r) \<noteq> c \<or> \<not> is_space c"
  by (cases k) (auto simp: plain_key_def trimmed_def)




subsection \<open>The lines of a serialized mapping\<close>


lemma spaces_no_newline [simp]: "CHR 0x0A \<notin> set (spaces n)"
  by (simp add: spaces_def)


subsection \<open>Parsing a block of lines\<close>


lemma matches_at_Nil [simp]: "matches_at lines p [] \<longleftrightarrow> p \<le> length lines"
  by (simp add: matches_at_def)









lemma prune_JObj: "prune (JObj obj) = JObj (pruned obj)"
  by (simp add: pruned_def)




subsection \<open>The whole text\<close>









subsection \<open>Round trip\<close>





subsection \<open>Concrete inputs\<close>






end
